theory Spec2Isabelle
  imports Main "HOL-Library.Word" "HOL-Library.Multiset"
begin

section \<open>JavaScript strings\<close>

text \<open>
  A JavaScript string is a sequence of 16-bit code units. \<open>String.fromCharCode\<close> reduces
  its argument modulo \<open>2 ^ 16\<close>, which is what \<open>of_nat\<close> into \<open>16 word\<close> does; the
  relational operators on one-unit strings compare the code units as unsigned numbers.
\<close>

type_synonym jschar = "16 word"
type_synonym jsstring = "jschar list"

definition fromCharCode :: "nat \<Rightarrow> jschar" where
  "fromCharCode n = of_nat n"

definition js :: "string \<Rightarrow> jsstring" where
  "js s = map (\<lambda>c. of_nat (of_char c)) s"

definition isDigit :: "jschar \<Rightarrow> bool" where
  "isDigit c = (48 \<le> c \<and> c \<le> 57)"

definition isUpper :: "jschar \<Rightarrow> bool" where
  "isUpper c = (65 \<le> c \<and> c \<le> 90)"

text \<open>\<open>Number.prototype.toString\<close> on a non-negative integer (below \<open>10 ^ 21\<close>): its decimal digits.\<close>

fun decimal :: "nat \<Rightarrow> jsstring" where
  "decimal n = (if n < 10 then [of_nat (48 + n)] else decimal (n div 10) @ [of_nat (48 + n mod 10)])"

declare decimal.simps [simp del]

text \<open>
  \<open>ToNumber\<close> on a string of decimal digits: the double nearest to the number the digits
  write, ties going to the even mantissa, and \<open>Infinity\<close> (here \<open>None\<close>) when that rounding
  reaches \<open>2 ^ 1024\<close>. Below \<open>2 ^ 53\<close> every integer is a double and the conversion is exact.
\<close>

definition decimalValue :: "jsstring \<Rightarrow> nat" where
  "decimalValue ds = foldl (\<lambda>a d. 10 * a + (unat d - 48)) 0 ds"

fun bitLength :: "nat \<Rightarrow> nat" where
  "bitLength n = (if n = 0 then 0 else Suc (bitLength (n div 2)))"

declare bitLength.simps [simp del]

definition nearestDouble :: "nat \<Rightarrow> nat option" where
  "nearestDouble n =
     (if n < 2 ^ 53 then Some n
      else (let e = bitLength n - 53;
                q = n div 2 ^ e;
                r = n mod 2 ^ e;
                m = (if 2 ^ e < 2 * r \<or> (2 * r = 2 ^ e \<and> odd q) then q + 1 else q)
            in if m * 2 ^ e < 2 ^ 1024 then Some (m * 2 ^ e) else None))"

definition toNumber :: "jsstring \<Rightarrow> nat option" where
  "toNumber ds = nearestDouble (decimalValue ds)"

section \<open>Cells, seats and the aircraft\<close>

definition CELLSIZE :: nat where
  "CELLSIZE = 64"

text \<open>
  Cells are heap objects that refer to each other; the model keeps them in a store (the
  aircraft's \<open>grid\<close>, to which every cell is pushed in the loop iteration that creates it),
  and a reference is the index of the cell in that store, \<open>None\<close> standing for \<open>null\<close>.
  The fields \<open>x\<close> and \<open>y\<close> are named \<open>xpos\<close> and \<open>ypos\<close>. A \<open>Seat\<close> is a cell with a
  \<open>row\<close> and a \<open>col\<close>; on a plain \<open>Cell\<close> both are \<open>undefined\<close>, here \<open>None\<close>.
  \<open>contents\<close> is a JavaScript \<open>Set\<close> of passengers (of their indices in the passenger
  store), kept in insertion order. The colours and the bounding box serve rendering only.
\<close>

record Cell =
  xpos :: nat
  ypos :: nat
  contents :: "nat list"
  up :: "nat option"
  down :: "nat option"
  left :: "nat option"
  right :: "nat option"
  row :: "nat option"
  col :: "jschar option"

definition newCell :: "nat \<Rightarrow> nat \<Rightarrow> Cell" where
  "newCell x y = \<lparr>xpos = x, ypos = y, contents = [], up = None, down = None,
     left = None, right = None, row = None, col = None\<rparr>"

definition newSeat :: "nat \<Rightarrow> nat \<Rightarrow> nat \<Rightarrow> jschar \<Rightarrow> Cell" where
  "newSeat x y r c = (newCell x y)\<lparr>row := Some r, col := Some c\<rparr>"

definition isEmpty :: "Cell \<Rightarrow> bool" where
  "isEmpty c = (length (contents c) = 0)"

definition set_add :: "'a \<Rightarrow> 'a list \<Rightarrow> 'a list" where
  "set_add a s = (if a \<in> set s then s else s @ [a])"

definition set_delete :: "'a \<Rightarrow> 'a list \<Rightarrow> 'a list" where
  "set_delete a s = removeAll a s"

record Aircraft =
  grid :: "Cell list"
  startingCell :: nat
  seats :: "nat list"
  rows :: "nat list"
  cols :: "jschar list"

definition newAircraft :: "Cell \<Rightarrow> Aircraft" where
  "newAircraft c = \<lparr>grid = [c], startingCell = 0, seats = [], rows = [], cols = []\<rparr>"

text \<open>\<open>addCell\<close>: a row number is truthy unless it is 0, a one-unit column string always.\<close>

definition addCell :: "Aircraft \<Rightarrow> Cell \<Rightarrow> Aircraft" where
  "addCell ac c = ac\<lparr>grid := grid ac @ [c],
     rows := (case row c of Some r \<Rightarrow> if r = 0 then rows ac else set_add r (rows ac) | None \<Rightarrow> rows ac),
     cols := (case col c of Some l \<Rightarrow> set_add l (cols ac) | None \<Rightarrow> cols ac)\<rparr>"

definition rowCount :: "Aircraft \<Rightarrow> nat" where
  "rowCount ac = length (rows ac)"

definition colCount :: "Aircraft \<Rightarrow> nat" where
  "colCount ac = length (cols ac)"

definition addSeat :: "Aircraft \<Rightarrow> nat \<Rightarrow> Aircraft" where
  "addSeat ac s = ac\<lparr>seats := seats ac @ [s]\<rparr>"

section \<open>The layout compiler\<close>

record RowSpec =
  repeat :: int
  layout :: jsstring

text \<open>\<open>prevCell.down = newCell\<close>, when \<open>prevCell\<close> is not \<open>null\<close>.\<close>

definition linkDown :: "nat option \<Rightarrow> nat \<Rightarrow> Cell list \<Rightarrow> Cell list" where
  "linkDown prevCell n g = (case prevCell of None \<Rightarrow> g | Some p \<Rightarrow> g[p := (g ! p)\<lparr>down := Some n\<rparr>])"

text \<open>
  The branch for \<open>'S'\<close>: a new seat, named after \<open>seatIndex\<close>, is added to the seat list,
  linked below \<open>prevCell\<close> and pushed to the grid, where its index is \<open>length (grid ac)\<close>.
\<close>

definition seatBranch :: "nat \<Rightarrow> nat \<Rightarrow> nat \<Rightarrow> nat option \<Rightarrow> nat \<Rightarrow> Aircraft \<Rightarrow> Aircraft" where
  "seatBranch x rowIndex j prevCell seatIndex ac =
     (let n = length (grid ac);
          c = (newSeat x (j * CELLSIZE) rowIndex (fromCharCode (65 + seatIndex)))\<lparr>up := prevCell\<rparr>;
          ac1 = addSeat ac n;
          ac2 = ac1\<lparr>grid := linkDown prevCell n (grid ac1)\<rparr>
      in addCell ac2 c)"

text \<open>
  The branch for \<open>'A'\<close>: a new plain cell, linked to the right of \<open>prevAisle\<close> (whose
  \<open>y\<close> is set to that of the new cell), linked below \<open>prevCell\<close> and pushed to the grid.
\<close>

definition aisleBranch :: "nat \<Rightarrow> nat \<Rightarrow> nat option \<Rightarrow> nat \<Rightarrow> Aircraft \<Rightarrow> Aircraft" where
  "aisleBranch x j prevCell prevAisle ac =
     (let n = length (grid ac);
          g1 = (grid ac)[prevAisle := (grid ac ! prevAisle)\<lparr>right := Some n, ypos := j * CELLSIZE\<rparr>];
          c = (newCell x (j * CELLSIZE))\<lparr>left := Some prevAisle, up := prevCell\<rparr>;
          ac2 = ac\<lparr>grid := linkDown prevCell n g1\<rparr>
      in addCell ac2 c)"

text \<open>
  The loop over the symbols of one row: \<open>x\<close> and \<open>rowIndex\<close> are fixed, \<open>j\<close>, \<open>prevCell\<close>
  and \<open>seatIndex\<close> are the loop's variables, the aircraft and \<open>prevAisle\<close> are threaded
  through. The symbols are \<open>'S'\<close> (83), \<open>'A'\<close> (65) and \<open>'+'\<close> (43).
\<close>

fun layoutLoop :: "nat \<Rightarrow> nat \<Rightarrow> jsstring \<Rightarrow> nat \<Rightarrow> nat option \<Rightarrow> nat \<Rightarrow> Aircraft \<times> nat \<Rightarrow> Aircraft \<times> nat" where
  "layoutLoop x rowIndex [] j prevCell seatIndex (ac, prevAisle) = (ac, prevAisle)"
| "layoutLoop x rowIndex (cellType # rest) j prevCell seatIndex (ac, prevAisle) =
    (if cellType = 83 then
       layoutLoop x rowIndex rest (j + 1) (Some (length (grid ac))) (seatIndex + 1)
         (seatBranch x rowIndex j prevCell seatIndex ac, prevAisle)
     else if cellType = 65 then
       layoutLoop x rowIndex rest (j + 1) (Some (length (grid ac))) seatIndex
         (aisleBranch x j prevCell prevAisle ac, length (grid ac))
     else if cellType = 43 then
       layoutLoop x rowIndex rest (j + 1) prevCell (seatIndex + 1) (ac, prevAisle)
     else
       layoutLoop x rowIndex rest (j + 1) prevCell seatIndex (ac, prevAisle))"

text \<open>The loop \<open>for (i = 0; i < rowSpec.repeat; i++)\<close>, counted down; the state is \<open>(aircraft, prevAisle, x, rowIndex)\<close>.\<close>

fun repeatLoop :: "nat \<Rightarrow> jsstring \<Rightarrow> Aircraft \<times> nat \<times> nat \<times> nat \<Rightarrow> Aircraft \<times> nat \<times> nat \<times> nat" where
  "repeatLoop 0 pat st = st"
| "repeatLoop (Suc k) pat (ac, prevAisle, x, rowIndex) =
    (let x1 = x + CELLSIZE;
         (ac1, prevAisle1) = layoutLoop x1 rowIndex pat 0 None 0 (ac, prevAisle)
     in repeatLoop k pat (ac1, prevAisle1, x1, rowIndex + 1))"

fun specLoop :: "RowSpec list \<Rightarrow> Aircraft \<times> nat \<times> nat \<times> nat \<Rightarrow> Aircraft \<times> nat \<times> nat \<times> nat" where
  "specLoop [] st = st"
| "specLoop (rowSpec # specs) st = specLoop specs (repeatLoop (nat (repeat rowSpec)) (layout rowSpec) st)"

definition generateAircraft :: "RowSpec list \<Rightarrow> Aircraft" where
  "generateAircraft seatLayout = fst (specLoop seatLayout (newAircraft (newCell 0 0), 0, 0, 1))"

section \<open>Looking a seat up by its identifier\<close>

text \<open>
  \<open>seatId.match(/([0-9]+)([A-Z]+)/)\<close>: the leftmost place where a run of digits is
  followed by a capital letter; both groups are greedy. At one starting place the greedy
  run of digits is the only candidate: after fewer digits the next unit is a digit,
  which is no capital.
\<close>

definition matchHere :: "jsstring \<Rightarrow> (jsstring \<times> jsstring) option" where
  "matchHere s =
     (let ds = takeWhile isDigit s; r = dropWhile isDigit s; ls = takeWhile isUpper r
      in if ds = [] \<or> ls = [] then None else Some (ds, ls))"

fun seatIdMatch :: "jsstring \<Rightarrow> (jsstring \<times> jsstring) option" where
  "seatIdMatch [] = None"
| "seatIdMatch (c # cs) = (case matchHere (c # cs) of Some m \<Rightarrow> Some m | None \<Rightarrow> seatIdMatch cs)"

text \<open>
  \<open>seat.row == targetRow\<close> compares a number with a string of digits, which is converted
  to a number; \<open>seat.col == targetCol\<close> compares two strings. On a cell that is no seat both
  fields are \<open>undefined\<close>, which equals no string.
\<close>

definition seatMatches :: "Cell \<Rightarrow> jsstring \<Rightarrow> jsstring \<Rightarrow> bool" where
  "seatMatches seat targetRow targetCol =
     ((case row seat of Some r \<Rightarrow> toNumber targetRow = Some r | None \<Rightarrow> False) \<and>
      (case col seat of Some c \<Rightarrow> [c] = targetCol | None \<Rightarrow> False))"

fun seatScan :: "Cell list \<Rightarrow> nat list \<Rightarrow> jsstring \<Rightarrow> jsstring \<Rightarrow> nat option" where
  "seatScan g [] targetRow targetCol = None"
| "seatScan g (seat # others) targetRow targetCol =
     (if seatMatches (g ! seat) targetRow targetCol then Some seat else seatScan g others targetRow targetCol)"

definition findSeat :: "Aircraft \<Rightarrow> jsstring \<Rightarrow> nat option" where
  "findSeat ac seatId =
     (case seatIdMatch seatId of
        None \<Rightarrow> None
      | Some (targetRow, targetCol) \<Rightarrow> seatScan (grid ac) (seats ac) targetRow targetCol)"

section \<open>Passengers\<close>

datatype State = Seated | Searching | LoadingUp | LoadingDown

text \<open>
  A passenger object; \<open>state\<close> is \<open>null\<close> (\<open>None\<close>) until the passenger is boarded.
  Passengers live in a store, a reference to one is its index there.
\<close>

record Passenger =
  cell :: "nat option"
  targetSeat :: nat
  state :: "State option"
  timeToTransition :: int

definition newPassenger :: "nat \<Rightarrow> Passenger" where
  "newPassenger seat = \<lparr>cell = None, targetSeat = seat, state = None, timeToTransition = 0\<rparr>"

text \<open>
  What can be thrown: a \<open>TypeError\<close> when a property of \<open>null\<close> is read, and the string
  thrown by \<open>Aircraft.board\<close> when the starting cell is full.
\<close>

datatype error = TypeError | StartingCellFull

text \<open>
  The objects a run mutates: the aircraft (the contents of its cells), the passengers, the
  two queues, and the number of calls made to \<open>luggageDistribution\<close> so far; the supplier
  itself is a function from the number of the call to the duration it returns, which
  covers a constant as well as any random sequence.
\<close>

record Sim =
  aircraft :: Aircraft
  pax :: "Passenger list"
  pendingPax :: "nat list"
  activePax :: "nat list"
  lugCalls :: nat

definition cellAt :: "Sim \<Rightarrow> nat \<Rightarrow> Cell" where
  "cellAt s c = grid (aircraft s) ! c"

definition updContents :: "nat \<Rightarrow> (nat list \<Rightarrow> nat list) \<Rightarrow> Sim \<Rightarrow> Sim" where
  "updContents c f s =
     s\<lparr>aircraft := (aircraft s)\<lparr>grid := (grid (aircraft s))[c := (cellAt s c)\<lparr>contents := f (contents (cellAt s c))\<rparr>]\<rparr>\<rparr>"

definition updPassenger :: "nat \<Rightarrow> (Passenger \<Rightarrow> Passenger) \<Rightarrow> Sim \<Rightarrow> Sim" where
  "updPassenger p f s = s\<lparr>pax := (pax s)[p := f (pax s ! p)]\<rparr>"

definition initializeAt :: "nat \<Rightarrow> nat \<Rightarrow> State \<Rightarrow> Sim \<Rightarrow> Sim" where
  "initializeAt p c st s =
     updPassenger p (\<lambda>a. a\<lparr>state := Some st\<rparr>)
       (updContents c (set_add p) (updPassenger p (\<lambda>a. a\<lparr>cell := Some c\<rparr>) s))"

text \<open>\<open>Agent.move\<close>: reading \<open>contents\<close> of a \<open>null\<close> cell throws.\<close>

definition move :: "nat \<Rightarrow> nat option \<Rightarrow> Sim \<Rightarrow> error + Sim" where
  "move p target s =
     (case cell (pax s ! p) of
        None \<Rightarrow> Inl TypeError
      | Some c \<Rightarrow>
          (case target of
             None \<Rightarrow> Inl TypeError
           | Some n \<Rightarrow>
               Inr (updContents n (set_add p)
                     (updPassenger p (\<lambda>a. a\<lparr>cell := Some n\<rparr>) (updContents c (set_delete p) s)))))"

text \<open>\<open>>=\<close> and \<open><=\<close> on column names; a comparison with \<open>undefined\<close> is false.\<close>

definition col_ge :: "jschar option \<Rightarrow> jschar option \<Rightarrow> bool" where
  "col_ge a b = (case (a, b) of (Some u, Some v) \<Rightarrow> u \<ge> v | _ \<Rightarrow> False)"

definition col_le :: "jschar option \<Rightarrow> jschar option \<Rightarrow> bool" where
  "col_le a b = (case (a, b) of (Some u, Some v) \<Rightarrow> u \<le> v | _ \<Rightarrow> False)"

definition seatIsUp :: "Sim \<Rightarrow> Cell \<Rightarrow> Cell \<Rightarrow> bool" where
  "seatIsUp s here t =
     (case up here of None \<Rightarrow> False
      | Some u \<Rightarrow> row (cellAt s u) = row t \<and> col_ge (col (cellAt s u)) (col t))"

definition seatIsDown :: "Sim \<Rightarrow> Cell \<Rightarrow> Cell \<Rightarrow> bool" where
  "seatIsDown s here t =
     (case down here of None \<Rightarrow> False
      | Some d \<Rightarrow> row (cellAt s d) = row t \<and> col_le (col (cellAt s d)) (col t))"

definition startLoading :: "(nat \<Rightarrow> int) \<Rightarrow> nat \<Rightarrow> State \<Rightarrow> Sim \<Rightarrow> Sim" where
  "startLoading luggageDistribution p st s =
     (updPassenger p (\<lambda>a. a\<lparr>state := Some st, timeToTransition := luggageDistribution (lugCalls s)\<rparr>) s)
       \<lparr>lugCalls := lugCalls s + 1\<rparr>"

text \<open>The move of a loading passenger once its countdown is at or below zero.\<close>

definition loadingMove :: "nat \<Rightarrow> (Cell \<Rightarrow> nat option) \<Rightarrow> Sim \<Rightarrow> error + Sim" where
  "loadingMove p dir s =
     (if timeToTransition (pax s ! p) \<le> 0 then
        (case cell (pax s ! p) of
           None \<Rightarrow> Inl TypeError
         | Some c \<Rightarrow>
             (case move p (dir (cellAt s c)) s of
                Inl e \<Rightarrow> Inl e
              | Inr s1 \<Rightarrow>
                  if cell (pax s1 ! p) = Some (targetSeat (pax s1 ! p))
                  then Inr (updPassenger p (\<lambda>a. a\<lparr>state := Some Seated\<rparr>) s1)
                  else Inr s1))
      else Inr s)"

text \<open>\<open>Passenger.simulate(deltaT)\<close> for the passenger \<open>p\<close>. The two \<open>console.error\<close> calls change nothing.\<close>

definition Passenger_simulate :: "(nat \<Rightarrow> int) \<Rightarrow> int \<Rightarrow> nat \<Rightarrow> Sim \<Rightarrow> error + Sim" where
  "Passenger_simulate luggageDistribution deltaT p s =
     (case state (pax s ! p) of
        None \<Rightarrow> Inr s
      | Some Seated \<Rightarrow> Inr s
      | Some Searching \<Rightarrow>
          (case cell (pax s ! p) of
             None \<Rightarrow> Inl TypeError
           | Some c \<Rightarrow>
               if seatIsUp s (cellAt s c) (cellAt s (targetSeat (pax s ! p)))
               then Inr (startLoading luggageDistribution p LoadingUp s)
               else if seatIsDown s (cellAt s c) (cellAt s (targetSeat (pax s ! p)))
               then Inr (startLoading luggageDistribution p LoadingDown s)
               else (case right (cellAt s c) of
                       Some r \<Rightarrow> if \<not> isEmpty (cellAt s r) then Inr s else move p (Some r) s
                     | None \<Rightarrow> Inr s))
      | Some LoadingUp \<Rightarrow>
          loadingMove p up (updPassenger p (\<lambda>a. a\<lparr>timeToTransition := timeToTransition a - deltaT\<rparr>) s)
      | Some LoadingDown \<Rightarrow>
          loadingMove p down (updPassenger p (\<lambda>a. a\<lparr>timeToTransition := timeToTransition a - deltaT\<rparr>) s))"

section \<open>The simulation loop\<close>

definition board :: "nat \<Rightarrow> Sim \<Rightarrow> error + Sim" where
  "board p s =
     (if isEmpty (cellAt s (startingCell (aircraft s)))
      then Inr (initializeAt p (startingCell (aircraft s)) Searching s)
      else Inl StartingCellFull)"

text \<open>The admission step at the top of the loop body; \<open>pop\<close> takes the last element.\<close>

definition admit :: "Sim \<Rightarrow> error + Sim" where
  "admit s =
     (if length (pendingPax s) > 0 \<and> isEmpty (cellAt s (startingCell (aircraft s))) then
        (let nextPax = last (pendingPax s);
             s1 = s\<lparr>pendingPax := butlast (pendingPax s)\<rparr>
         in case board nextPax s1 of
              Inl e \<Rightarrow> Inl e
            | Inr s2 \<Rightarrow> Inr (s2\<lparr>activePax := activePax s2 @ [nextPax]\<rparr>))
      else Inr s)"

definition allSeated :: "Sim \<Rightarrow> bool" where
  "allSeated s = (length (filter (\<lambda>p. state (pax s ! p) \<noteq> Some Seated) (activePax s)) = 0)"

fun simulateEach :: "(nat \<Rightarrow> int) \<Rightarrow> int \<Rightarrow> nat list \<Rightarrow> Sim \<Rightarrow> error + Sim" where
  "simulateEach luggageDistribution deltaT [] s = Inr s"
| "simulateEach luggageDistribution deltaT (p # ps) s =
     (case Passenger_simulate luggageDistribution deltaT p s of
        Inl e \<Rightarrow> Inl e
      | Inr s1 \<Rightarrow> simulateEach luggageDistribution deltaT ps s1)"

text \<open>
  One pass through the loop body: admission, the test for completion (\<open>True\<close> is the
  \<open>break\<close>), then one step of every active passenger.
\<close>

definition loopBody :: "(nat \<Rightarrow> int) \<Rightarrow> int \<Rightarrow> Sim \<Rightarrow> error + (bool \<times> Sim)" where
  "loopBody luggageDistribution tickLengthms s =
     (case admit s of
        Inl e \<Rightarrow> Inl e
      | Inr s1 \<Rightarrow>
          if allSeated s1 then Inr (True, s1)
          else (case simulateEach luggageDistribution tickLengthms (activePax s1) s1 of
                  Inl e \<Rightarrow> Inl e
                | Inr s2 \<Rightarrow> Inr (False, s2)))"

definition maxIterations :: nat where
  "maxIterations = 10000"

text \<open>
  How a run ends: the \<open>break\<close> with everybody seated (\<open>Completed\<close>), the loop left with
  \<open>simStatus.run\<close> cleared, which is reported as aborted (\<open>Aborted\<close>), the loop left at the
  ceiling with the flag still set, of which nothing is reported (\<open>Stalled\<close>), and an
  exception (\<open>Threw\<close>).
\<close>

datatype Outcome = Completed | Aborted | Stalled | Threw error

text \<open>
  The loop. \<open>run n\<close> is the value of \<open>simStatus.run\<close> when the loop condition is evaluated
  with \<open>iterCount = n\<close>; nothing can change the flag between that test and the test after
  the loop. The result is the outcome, the final \<open>iterCount\<close> and the final state.
\<close>

function mainLoop :: "(nat \<Rightarrow> bool) \<Rightarrow> (nat \<Rightarrow> int) \<Rightarrow> int \<Rightarrow> nat \<Rightarrow> Sim \<Rightarrow> Outcome \<times> nat \<times> Sim" where
  "mainLoop run luggageDistribution tickLengthms iterCount s =
     (if run iterCount \<and> iterCount < maxIterations then
        (case loopBody luggageDistribution tickLengthms s of
           Inl e \<Rightarrow> (Threw e, iterCount, s)
         | Inr (True, s1) \<Rightarrow> (Completed, iterCount, s1)
         | Inr (False, s2) \<Rightarrow> mainLoop run luggageDistribution tickLengthms (iterCount + 1) s2)
      else if \<not> run iterCount then (Aborted, iterCount, s)
      else (Stalled, iterCount, s))"
  by pat_completeness auto
termination
  by (relation "measure (\<lambda>(run, lug, t, n, s). maxIterations - n)") auto

declare mainLoop.simps [simp del]

section \<open>Boarding orders\<close>

text \<open>The arrays hold references to passengers: here lists of indices into the passenger store.\<close>

definition arrangeBackFront :: "nat list \<Rightarrow> Aircraft \<Rightarrow> nat list" where
  "arrangeBackFront passengers ac = passengers"

definition arrangeFrontBack :: "nat list \<Rightarrow> Aircraft \<Rightarrow> nat list" where
  "arrangeFrontBack passengers ac = rev passengers"

text \<open>
  \<open>shuffleArray\<close>, for \<open>i\<close> from \<open>length - 1\<close> down to 1. \<open>Math.floor(Math.random() * (i + 1))\<close>
  is some integer from 0 to \<open>i\<close>: the random source is a function \<open>rnd\<close> of \<open>i\<close>, reduced
  modulo \<open>i + 1\<close>, so that every such choice and no other is covered.
\<close>

fun shuffleLoop :: "(nat \<Rightarrow> nat) \<Rightarrow> nat \<Rightarrow> 'a list \<Rightarrow> 'a list" where
  "shuffleLoop rnd 0 array = array"
| "shuffleLoop rnd (Suc i) array =
     (let j = rnd (Suc i) mod (Suc i + 1);
          tmp = array ! Suc i
      in shuffleLoop rnd i (array[Suc i := array ! j, j := tmp]))"

definition shuffleArray :: "(nat \<Rightarrow> nat) \<Rightarrow> 'a list \<Rightarrow> 'a list" where
  "shuffleArray rnd array = shuffleLoop rnd (length array - 1) array"

definition arrangeRandom :: "(nat \<Rightarrow> nat) \<Rightarrow> nat list \<Rightarrow> Aircraft \<Rightarrow> nat list" where
  "arrangeRandom rnd passengers ac = shuffleArray rnd passengers"

text \<open>
  \<open>Seat.toString\<close>: the row number followed by the column name. A passenger's target is
  always a \<open>Seat\<close>; for a plain cell the result is \<open>None\<close> (\<open>Cell.toString\<close> would give a
  string with a comma in it, which is none of the keys \<open>arrangeSteffen\<close> looks up).
\<close>

definition Seat_toString :: "Cell \<Rightarrow> jsstring option" where
  "Seat_toString c = (case (row c, col c) of (Some r, Some l) \<Rightarrow> Some (decimal r @ [l]) | _ \<Rightarrow> None)"

text \<open>\<open>seatMap\<close>: a later passenger with the same key replaces an earlier one.\<close>

fun seatMapLoop :: "('p \<Rightarrow> jsstring option) \<Rightarrow> 'p list \<Rightarrow> (jsstring \<rightharpoonup> 'p) \<Rightarrow> (jsstring \<rightharpoonup> 'p)" where
  "seatMapLoop key [] seatMap = seatMap"
| "seatMapLoop key (p # ps) seatMap =
     seatMapLoop key ps (case key p of Some k \<Rightarrow> seatMap(k \<mapsto> p) | None \<Rightarrow> seatMap)"

definition pushFound :: "(jsstring \<rightharpoonup> 'p) \<Rightarrow> jsstring \<Rightarrow> 'p list \<Rightarrow> 'p list" where
  "pushFound seatMap seat sortedPassengers =
     (case seatMap seat of Some passenger \<Rightarrow> sortedPassengers @ [passenger] | None \<Rightarrow> sortedPassengers)"

text \<open>The loops \<open>for (row = ...; row > 0; row -= 2)\<close>; \<open>both\<close> is \<open>leftCol !== rightCol\<close>.\<close>

fun rowLoop :: "(jsstring \<rightharpoonup> 'p) \<Rightarrow> jschar \<Rightarrow> jschar \<Rightarrow> bool \<Rightarrow> nat \<Rightarrow> 'p list \<Rightarrow> 'p list" where
  "rowLoop seatMap rightColName leftColName both r sortedPassengers =
     (if r > 0 then
        (let s1 = pushFound seatMap (decimal r @ [rightColName]) sortedPassengers;
             s2 = (if both then pushFound seatMap (decimal r @ [leftColName]) s1 else s1)
         in rowLoop seatMap rightColName leftColName both (r - 2) s2)
      else sortedPassengers)"

declare rowLoop.simps [simp del]

function colLoop :: "(jsstring \<rightharpoonup> 'p) \<Rightarrow> nat \<Rightarrow> int \<Rightarrow> int \<Rightarrow> 'p list \<Rightarrow> 'p list" where
  "colLoop seatMap nrows rightCol leftCol sortedPassengers =
     (if leftCol \<ge> rightCol then
        (let rightColName = fromCharCode (nat (65 + rightCol));
             leftColName = fromCharCode (nat (65 + leftCol));
             s1 = rowLoop seatMap rightColName leftColName (leftCol \<noteq> rightCol) nrows sortedPassengers;
             s2 = rowLoop seatMap rightColName leftColName (leftCol \<noteq> rightCol) (nrows - 1) s1
         in colLoop seatMap nrows (rightCol + 1) (leftCol - 1) s2)
      else sortedPassengers)"
  by pat_completeness auto
termination
  by (relation "measure (\<lambda>(m, n, r, l, s). nat (l - r + 1))") auto

declare colLoop.simps [simp del]

definition targetKey :: "Passenger list \<Rightarrow> Aircraft \<Rightarrow> nat \<Rightarrow> jsstring option" where
  "targetKey store ac p = Seat_toString (grid ac ! targetSeat (store ! p))"

definition arrangeSteffen :: "Passenger list \<Rightarrow> nat list \<Rightarrow> Aircraft \<Rightarrow> nat list" where
  "arrangeSteffen store passengers ac =
     rev (colLoop (seatMapLoop (targetKey store ac) passengers Map.empty)
            (rowCount ac) 0 (int (colCount ac) - 1) [])"

section \<open>A whole run\<close>

text \<open>
  \<open>simulate\<close>. What the page supplies is a parameter: the seat layout of the form, the
  checked boarding method, the random choices of the shuffle, and the values of the
  cancellation flag. An unknown method leaves the queue as it is.
\<close>

definition arrange :: "jsstring \<Rightarrow> (nat \<Rightarrow> nat) \<Rightarrow> Passenger list \<Rightarrow> nat list \<Rightarrow> Aircraft \<Rightarrow> nat list" where
  "arrange method rnd store pending ac =
     (if method = js ''random'' then arrangeRandom rnd pending ac
      else if method = js ''btf'' then arrangeBackFront pending ac
      else if method = js ''ftb'' then arrangeFrontBack pending ac
      else if method = js ''steffen'' then arrangeSteffen store pending ac
      else pending)"

definition initialSim :: "RowSpec list \<Rightarrow> jsstring \<Rightarrow> (nat \<Rightarrow> nat) \<Rightarrow> Sim" where
  "initialSim seatLayout method rnd =
     (let ac = generateAircraft seatLayout;
          store = map newPassenger (seats ac)
      in \<lparr>aircraft = ac, pax = store,
          pendingPax = arrange method rnd store [0..<length (seats ac)] ac,
          activePax = [], lugCalls = 0\<rparr>)"

definition simulate ::
  "RowSpec list \<Rightarrow> jsstring \<Rightarrow> (nat \<Rightarrow> nat) \<Rightarrow> (nat \<Rightarrow> bool) \<Rightarrow> int option \<Rightarrow> (nat \<Rightarrow> int) option
     \<Rightarrow> Outcome \<times> nat \<times> Sim" where
  "simulate seatLayout method rnd run tickLengthms luggageDistribution =
     mainLoop run
       (case luggageDistribution of None \<Rightarrow> (\<lambda>_. 10000) | Some f \<Rightarrow> f)
       (case tickLengthms of None \<Rightarrow> 500 | Some t \<Rightarrow> t)
       0 (initialSim seatLayout method rnd)"

section \<open>Invariants of the compiled grid\<close>

definition gridOK :: "Cell list \<Rightarrow> bool" where
  "gridOK g \<longleftrightarrow>
     g \<noteq> [] \<and> xpos (g ! 0) = 0 \<and> row (g ! 0) = None \<and>
     (\<forall>i<length g. 0 < i \<longrightarrow> 0 < xpos (g ! i)) \<and>
     (\<forall>i<length g. \<forall>k<length g. i \<le> k \<longrightarrow> xpos (g ! i) \<le> xpos (g ! k)) \<and>
     (\<forall>i<length g. up (g ! i) = (if 0 < i \<and> xpos (g ! (i - 1)) = xpos (g ! i) then Some (i - 1) else None)) \<and>
     (\<forall>i<length g. down (g ! i) = (if Suc i < length g \<and> xpos (g ! Suc i) = xpos (g ! i) then Some (Suc i) else None)) \<and>
     (\<forall>i<length g. \<forall>k. right (g ! i) = Some k \<longrightarrow> k < length g \<and> left (g ! k) = Some i \<and> row (g ! k) = None) \<and>
     (\<forall>k<length g. \<forall>i. left (g ! k) = Some i \<longrightarrow> i < length g \<and> right (g ! i) = Some k) \<and>
     (\<forall>i<length g. \<forall>r. row (g ! i) = Some r \<longrightarrow> xpos (g ! i) = CELLSIZE * r) \<and>
     (\<forall>i<length g. (row (g ! i) = None) = (col (g ! i) = None))"

definition buildOK :: "nat \<Rightarrow> nat option \<Rightarrow> nat \<Rightarrow> Cell list \<Rightarrow> bool" where
  "buildOK x pc pa g \<longleftrightarrow>
     gridOK g \<and> 0 < x \<and> (\<forall>i<length g. xpos (g ! i) \<le> x) \<and>
     pc = (if xpos (last g) = x then Some (length g - 1) else None) \<and>
     pa < length g \<and> row (g ! pa) = None \<and> right (g ! pa) = None"

text \<open>The same between two rows.\<close>

definition rowsOK :: "nat \<Rightarrow> nat \<Rightarrow> Cell list \<Rightarrow> bool" where
  "rowsOK x pa g \<longleftrightarrow> gridOK g \<and> (\<forall>i<length g. xpos (g ! i) \<le> x) \<and>
     pa < length g \<and> row (g ! pa) = None \<and> right (g ! pa) = None"

text \<open>
  At most one plain cell per row (the starting cell has a row of its own), and the
  invariant of the row loop that gives it when a pattern has at most one \<open>'A'\<close>.
\<close>

definition singleAisle :: "Cell list \<Rightarrow> bool" where
  "singleAisle g \<longleftrightarrow>
     (\<forall>i<length g. \<forall>k<length g. row (g ! i) = None \<longrightarrow> row (g ! k) = None \<longrightarrow>
        xpos (g ! i) = xpos (g ! k) \<longrightarrow> i = k)"

definition aisleInv :: "nat \<Rightarrow> jsstring \<Rightarrow> Cell list \<Rightarrow> bool" where
  "aisleInv x pat g \<longleftrightarrow>
     singleAisle g \<and> (\<forall>i<length g. xpos (g ! i) \<le> x) \<and>
     length (filter (\<lambda>s. s = 65) pat) \<le> 1 \<and>
     ((\<exists>i<length g. row (g ! i) = None \<and> xpos (g ! i) = x) \<longrightarrow> 65 \<notin> set pat)"

text \<open>
  Within a row the column names grow with the position, and the invariant of the row loop
  that gives it when the letters of a pattern stay below \<open>2 ^ 16\<close>.
\<close>

definition colOrder :: "Cell list \<Rightarrow> bool" where
  "colOrder g \<longleftrightarrow>
     (\<forall>i<length g. \<forall>k<length g. i < k \<longrightarrow> xpos (g ! i) = xpos (g ! k) \<longrightarrow>
        (\<forall>a b. col (g ! i) = Some a \<longrightarrow> col (g ! k) = Some b \<longrightarrow> a < b))"

definition colInv :: "nat \<Rightarrow> nat \<Rightarrow> jsstring \<Rightarrow> Cell list \<Rightarrow> bool" where
  "colInv x k pat g \<longleftrightarrow>
     colOrder g \<and> (\<forall>i<length g. xpos (g ! i) \<le> x) \<and>
     (\<forall>i<length g. xpos (g ! i) = x \<longrightarrow> (\<forall>a. col (g ! i) = Some a \<longrightarrow> unat a < 65 + k)) \<and>
     65 + k + length (filter (\<lambda>s. s = 83 \<or> s = 43) pat) \<le> 65536"

section \<open>Concrete layouts and runs\<close>

text \<open>One row \<open>SSASS\<close>, and the grid it compiles to.\<close>

definition oneRowLayout :: "RowSpec list" where
  "oneRowLayout = [\<lparr>repeat = 1, layout = js ''SSASS''\<rparr>]"

definition oneRowAircraft :: Aircraft where
  "oneRowAircraft =
    \<lparr>grid =
       [\<lparr>xpos = 0, ypos = 128, contents = [], up = None, down = None,
           left = None, right = Some 3, row = None, col = None\<rparr>,
        \<lparr>xpos = 64, ypos = 0, contents = [], up = None, down = Some 2,
           left = None, right = None, row = Some 1, col = Some 65\<rparr>,
        \<lparr>xpos = 64, ypos = 64, contents = [], up = Some 1, down = Some 3,
           left = None, right = None, row = Some 1, col = Some 66\<rparr>,
        \<lparr>xpos = 64, ypos = 128, contents = [], up = Some 2, down = Some 4,
           left = Some 0, right = None, row = None, col = None\<rparr>,
        \<lparr>xpos = 64, ypos = 192, contents = [], up = Some 3, down = Some 5,
           left = None, right = None, row = Some 1, col = Some 67\<rparr>,
        \<lparr>xpos = 64, ypos = 256, contents = [], up = Some 4, down = None,
           left = None, right = None, row = Some 1, col = Some 68\<rparr>],
       startingCell = 0, seats = [1, 2, 4, 5], rows = [1],
       cols = [65, 66, 67, 68]\<rparr>"

section \<open>The seats of a layout, described directly\<close>

text \<open>
  The number of \<open>'S'\<close> and \<open>'+'\<close> symbols strictly before position \<open>j\<close> of a pattern.
\<close>


definition slotsBefore :: "jsstring \<Rightarrow> nat \<Rightarrow> nat" where
  "slotsBefore pat j = length (filter (\<lambda>s. s = 83 \<or> s = 43) (take j pat))"

type_synonym seatView = "nat option \<times> jschar option \<times> nat \<times> nat"

definition seatView :: "Cell list \<Rightarrow> nat \<Rightarrow> seatView" where
  "seatView g s = (row (g ! s), col (g ! s), xpos (g ! s), ypos (g ! s))"

definition rowSeats :: "nat \<Rightarrow> jsstring \<Rightarrow> seatView list" where
  "rowSeats r pat =
     map (\<lambda>j. (Some r, Some (fromCharCode (65 + slotsBefore pat j)), CELLSIZE * r, j * CELLSIZE))
       (filter (\<lambda>j. pat ! j = 83) [0..<length pat])"

fun seatsOfRows :: "nat \<Rightarrow> jsstring list \<Rightarrow> seatView list" where
  "seatsOfRows r [] = []"
| "seatsOfRows r (pat # pats) = rowSeats r pat @ seatsOfRows (Suc r) pats"

definition expandRows :: "RowSpec list \<Rightarrow> jsstring list" where
  "expandRows seatLayout = concat (map (\<lambda>sp. replicate (nat (repeat sp)) (layout sp)) seatLayout)"

definition seatsInv :: "Aircraft \<Rightarrow> nat \<Rightarrow> bool" where
  "seatsInv ac pa \<longleftrightarrow> pa < length (grid ac) \<and> row (grid ac ! pa) = None \<and>
     (\<forall>s\<in>set (seats ac). s < length (grid ac) \<and> row (grid ac ! s) \<noteq> None)"

text \<open>The seats a row loop adds when it starts at position \<open>j\<close> with \<open>seatIndex = k\<close>.\<close>

definition rowSeatsFrom :: "nat \<Rightarrow> nat \<Rightarrow> nat \<Rightarrow> nat \<Rightarrow> jsstring \<Rightarrow> seatView list" where
  "rowSeatsFrom x r j k pat =
     map (\<lambda>i. (Some r, Some (fromCharCode (65 + (k + slotsBefore pat i))), x, (j + i) * CELLSIZE))
       (filter (\<lambda>i. pat ! i = 83) [0..<length pat])"

section \<open>Invariants of a run\<close>

definition shapeOf :: "Cell \<Rightarrow> Cell" where
  "shapeOf c = c\<lparr>contents := []\<rparr>"

definition sameShape :: "Cell list \<Rightarrow> Cell list \<Rightarrow> bool" where
  "sameShape g0 g \<longleftrightarrow> map shapeOf g = map shapeOf g0"

text \<open>the state after a move of passenger p from cell c to cell n\<close>

definition moved :: "nat \<Rightarrow> nat \<Rightarrow> nat \<Rightarrow> Sim \<Rightarrow> Sim" where
  "moved p c n s =
     updContents n (set_add p) (updPassenger p (\<lambda>a. a\<lparr>cell := Some n\<rparr>) (updContents c (set_delete p) s))"

text \<open>what one step does to the record of the passenger\<close>

inductive paxStep :: "Cell list \<Rightarrow> Passenger \<Rightarrow> Passenger \<Rightarrow> bool" for g :: "Cell list" where
  idle: "paxStep g a a"
| startUp: "state a = Some Searching \<Longrightarrow> cell a = Some c \<Longrightarrow> up (g ! c) = Some u \<Longrightarrow>
     row (g ! u) = row (g ! targetSeat a) \<Longrightarrow> col_ge (col (g ! u)) (col (g ! targetSeat a)) \<Longrightarrow>
     paxStep g a (a\<lparr>state := Some LoadingUp, timeToTransition := v\<rparr>)"
| startDown: "state a = Some Searching \<Longrightarrow> cell a = Some c \<Longrightarrow> down (g ! c) = Some d \<Longrightarrow>
     row (g ! d) = row (g ! targetSeat a) \<Longrightarrow> col_le (col (g ! d)) (col (g ! targetSeat a)) \<Longrightarrow>
     paxStep g a (a\<lparr>state := Some LoadingDown, timeToTransition := v\<rparr>)"
| stepRight: "state a = Some Searching \<Longrightarrow> cell a = Some c \<Longrightarrow> right (g ! c) = Some r \<Longrightarrow>
     paxStep g a (a\<lparr>cell := Some r\<rparr>)"
| wait: "state a = Some LoadingUp \<or> state a = Some LoadingDown \<Longrightarrow>
     paxStep g a (a\<lparr>timeToTransition := v\<rparr>)"
| stepUp: "state a = Some LoadingUp \<Longrightarrow> cell a = Some c \<Longrightarrow> up (g ! c) = Some n \<Longrightarrow>
     paxStep g a (a\<lparr>timeToTransition := v, cell := Some n,
       state := (if n = targetSeat a then Some Seated else Some LoadingUp)\<rparr>)"
| stepDown: "state a = Some LoadingDown \<Longrightarrow> cell a = Some c \<Longrightarrow> down (g ! c) = Some n \<Longrightarrow>
     paxStep g a (a\<lparr>timeToTransition := v, cell := Some n,
       state := (if n = targetSeat a then Some Seated else Some LoadingDown)\<rparr>)"

text \<open>the parts of the state a step leaves alone\<close>

definition frame :: "Sim \<Rightarrow> Sim \<Rightarrow> bool" where
  "frame s s' \<longleftrightarrow> sameShape (grid (aircraft s)) (grid (aircraft s')) \<and>
     startingCell (aircraft s') = startingCell (aircraft s) \<and> seats (aircraft s') = seats (aircraft s) \<and>
     activePax s' = activePax s \<and> pendingPax s' = pendingPax s"

text \<open>what one step of the passenger p does to the occupants of the cell i\<close>

definition contentsStep :: "Cell list \<Rightarrow> Passenger \<Rightarrow> nat \<Rightarrow> Cell list \<Rightarrow> nat \<Rightarrow> bool" where
  "contentsStep g a p g' i \<longleftrightarrow>
     length (contents (g' ! i)) \<le> length (contents (g ! i)) \<or>
     (\<exists>c. cell a = Some c \<and>
        ((state a = Some Searching \<and> right (g ! c) = Some i \<and> contents (g' ! i) = [p]) \<or>
         (state a = Some LoadingUp \<and> up (g ! c) = Some i) \<or>
         (state a = Some LoadingDown \<and> down (g ! c) = Some i)))"

text \<open>the passengers and cells a run refers to exist\<close>

definition baseInv :: "nat list \<Rightarrow> Cell list \<Rightarrow> Sim \<Rightarrow> bool" where
  "baseInv targets g0 s \<longleftrightarrow>
     sameShape g0 (grid (aircraft s)) \<and> startingCell (aircraft s) = 0 \<and>
     map targetSeat (pax s) = targets \<and>
     (\<forall>p<length (pax s). \<forall>c. cell (pax s ! p) = Some c \<longrightarrow> c < length g0) \<and>
     (\<forall>p\<in>set (activePax s). p < length (pax s)) \<and>
     (\<forall>p\<in>set (pendingPax s). p < length (pax s))"

definition wfPax :: "Cell list \<Rightarrow> Passenger \<Rightarrow> bool" where
  "wfPax g0 a \<longleftrightarrow> (\<forall>c. cell a = Some c \<longrightarrow> c < length g0) \<and>
     targetSeat a < length g0 \<and> row (g0 ! targetSeat a) \<noteq> None"

text \<open>the states of a run, after each admission and each step of a passenger\<close>

inductive reachable :: "(nat \<Rightarrow> int) \<Rightarrow> int \<Rightarrow> Sim \<Rightarrow> Sim \<Rightarrow> bool" for lug :: "nat \<Rightarrow> int" and t :: int and s0 :: Sim where
  start: "reachable lug t s0 s0"
| admitted: "reachable lug t s0 s \<Longrightarrow> admit s = Inr s' \<Longrightarrow> reachable lug t s0 s'"
| stepped: "reachable lug t s0 s \<Longrightarrow> p \<in> set (activePax s) \<Longrightarrow> Passenger_simulate lug t p s = Inr s' \<Longrightarrow>
     reachable lug t s0 s'"

text \<open>
  What holds of every passenger in a grid whose column names grow with the position: while
  searching it stands in a plain cell, while loading up its target is above it in its row,
  while loading down below it.
\<close>

definition towardsTarget :: "Cell list \<Rightarrow> Passenger \<Rightarrow> bool" where
  "towardsTarget g0 a \<longleftrightarrow>
     (case state a of
        Some Searching \<Rightarrow> (\<exists>c. cell a = Some c \<and> row (g0 ! c) = None)
      | Some LoadingUp \<Rightarrow>
          (\<exists>c. cell a = Some c \<and> targetSeat a < c \<and> xpos (g0 ! targetSeat a) = xpos (g0 ! c))
      | Some LoadingDown \<Rightarrow>
          (\<exists>c. cell a = Some c \<and> c < targetSeat a \<and> xpos (g0 ! targetSeat a) = xpos (g0 ! c))
      | _ \<Rightarrow> True)"

text \<open>
  What holds of every passenger in a grid with at most one plain cell per row: while
  loading, only seats lie ahead of it in its row.
\<close>

definition besideAisle :: "Cell list \<Rightarrow> Passenger \<Rightarrow> bool" where
  "besideAisle g0 a \<longleftrightarrow>
     (case state a of
        Some Searching \<Rightarrow> (\<exists>c. cell a = Some c \<and> row (g0 ! c) = None)
      | Some LoadingUp \<Rightarrow>
          (\<exists>c. cell a = Some c \<and> (\<forall>i<c. xpos (g0 ! i) = xpos (g0 ! c) \<longrightarrow> row (g0 ! i) \<noteq> None))
      | Some LoadingDown \<Rightarrow>
          (\<exists>c. cell a = Some c \<and>
             (\<forall>i<length g0. c < i \<longrightarrow> xpos (g0 ! i) = xpos (g0 ! c) \<longrightarrow> row (g0 ! i) \<noteq> None))
      | _ \<Rightarrow> True)"

text \<open>At most one occupant in every plain cell (the starting cell and the aisle cells).\<close>

definition plainCellsSingle :: "Cell list \<Rightarrow> Sim \<Rightarrow> bool" where
  "plainCellsSingle g0 s \<longleftrightarrow>
     (\<forall>i<length g0. row (g0 ! i) = None \<longrightarrow> length (contents (grid (aircraft s) ! i)) \<le> 1)"

section \<open>What an identifier says, for the seat lookup\<close>

text \<open>
  A string contains a seat identifier when somewhere in it a digit is directly followed
  by a capital letter.
\<close>

definition digitThenCapital :: "jsstring \<Rightarrow> bool" where
  "digitThenCapital s \<longleftrightarrow> (\<exists>u d c v. s = u @ d # c # v \<and> isDigit d \<and> isUpper c)"

text \<open>The number that a string of digits writes in positional notation.\<close>

definition writtenNumber :: "jsstring \<Rightarrow> nat" where
  "writtenNumber ds = (\<Sum>i<length ds. (unat (ds ! i) - 48) * 10 ^ (length ds - 1 - i))"

section \<open>Runs of the simulation\<close>

text \<open>
  The states in which the loop of \<open>simulate\<close> is between two ticks: the state before the
  first pass through the loop body, and the state after every pass that ends normally.
\<close>

inductive tickBoundary :: "(nat \<Rightarrow> int) \<Rightarrow> int \<Rightarrow> Sim \<Rightarrow> Sim \<Rightarrow> bool"
  for lug :: "nat \<Rightarrow> int" and t :: int and s0 :: Sim where
  first: "tickBoundary lug t s0 s0"
| later: "tickBoundary lug t s0 s \<Longrightarrow> loopBody lug t s = Inr (b, s') \<Longrightarrow> tickBoundary lug t s0 s'"

text \<open>
  A state written down in short: the aircraft, the occupants of its cells in the order of
  the grid, the passengers, the two queues and the number of luggage durations drawn.
\<close>

definition situation ::
  "Aircraft \<Rightarrow> nat list list \<Rightarrow> Passenger list \<Rightarrow> nat list \<Rightarrow> nat list \<Rightarrow> nat \<Rightarrow> Sim" where
  "situation ac occupants passengers pending active calls =
     \<lparr>aircraft = ac\<lparr>grid := map (\<lambda>(c, x). c\<lparr>contents := x\<rparr>) (zip (grid ac) occupants)\<rparr>,
      pax = passengers, pendingPax = pending, activePax = active, lugCalls = calls\<rparr>"

text \<open>
  What the page supplies in the runs below: a luggage duration that is always 0, one that
  is 1000 for the first passenger who stows and 0 afterwards, a cancellation flag that stays
  set, one that is cleared during the tick number 9999, and a shuffle that always draws 0.
\<close>

definition noLuggage :: "nat \<Rightarrow> int" where
  "noLuggage n = 0"

definition slowFirst :: "nat \<Rightarrow> int" where
  "slowFirst n = (if n = 0 then 1000 else 0)"

definition alwaysRun :: "nat \<Rightarrow> bool" where
  "alwaysRun n = True"

definition stopAtCeiling :: "nat \<Rightarrow> bool" where
  "stopAtCeiling n = (n < 10000)"

definition firstChoice :: "nat \<Rightarrow> nat" where
  "firstChoice i = 0"

text \<open>
  The run of the row \<open>SSASS\<close> with the method \<open>btf\<close>, ticks of 100 ms and no luggage: the
  states between the ticks. Passenger \<open>i\<close> is the one whose target is the \<open>i\<close>-th seat.
\<close>

definition oneRowTrace :: "Sim list" where
  "oneRowTrace =
    [situation oneRowAircraft
       [[], [], [], [], [], []]
       [\<lparr>cell = None, targetSeat = 1, state = None, timeToTransition = 0\<rparr>,
        \<lparr>cell = None, targetSeat = 2, state = None, timeToTransition = 0\<rparr>,
        \<lparr>cell = None, targetSeat = 4, state = None, timeToTransition = 0\<rparr>,
        \<lparr>cell = None, targetSeat = 5, state = None, timeToTransition = 0\<rparr>]
       [0, 1, 2, 3] [] 0,
     situation oneRowAircraft
       [[], [], [], [3], [], []]
       [\<lparr>cell = None, targetSeat = 1, state = None, timeToTransition = 0\<rparr>,
        \<lparr>cell = None, targetSeat = 2, state = None, timeToTransition = 0\<rparr>,
        \<lparr>cell = None, targetSeat = 4, state = None, timeToTransition = 0\<rparr>,
        \<lparr>cell = Some 3, targetSeat = 5, state = Some Searching, timeToTransition = 0\<rparr>]
       [0, 1, 2] [3] 0,
     situation oneRowAircraft
       [[2], [], [], [3], [], []]
       [\<lparr>cell = None, targetSeat = 1, state = None, timeToTransition = 0\<rparr>,
        \<lparr>cell = None, targetSeat = 2, state = None, timeToTransition = 0\<rparr>,
        \<lparr>cell = Some 0, targetSeat = 4, state = Some Searching, timeToTransition = 0\<rparr>,
        \<lparr>cell = Some 3, targetSeat = 5, state = Some LoadingDown, timeToTransition = 0\<rparr>]
       [0, 1] [3, 2] 1,
     situation oneRowAircraft
       [[], [], [], [2], [3], []]
       [\<lparr>cell = None, targetSeat = 1, state = None, timeToTransition = 0\<rparr>,
        \<lparr>cell = None, targetSeat = 2, state = None, timeToTransition = 0\<rparr>,
        \<lparr>cell = Some 3, targetSeat = 4, state = Some Searching, timeToTransition = 0\<rparr>,
        \<lparr>cell = Some 4, targetSeat = 5, state = Some LoadingDown, timeToTransition = - 100\<rparr>]
       [0, 1] [3, 2] 1,
     situation oneRowAircraft
       [[1], [], [], [2], [], [3]]
       [\<lparr>cell = None, targetSeat = 1, state = None, timeToTransition = 0\<rparr>,
        \<lparr>cell = Some 0, targetSeat = 2, state = Some Searching, timeToTransition = 0\<rparr>,
        \<lparr>cell = Some 3, targetSeat = 4, state = Some LoadingDown, timeToTransition = 0\<rparr>,
        \<lparr>cell = Some 5, targetSeat = 5, state = Some Seated, timeToTransition = - 200\<rparr>]
       [0] [3, 2, 1] 2,
     situation oneRowAircraft
       [[], [], [], [1], [2], [3]]
       [\<lparr>cell = None, targetSeat = 1, state = None, timeToTransition = 0\<rparr>,
        \<lparr>cell = Some 3, targetSeat = 2, state = Some Searching, timeToTransition = 0\<rparr>,
        \<lparr>cell = Some 4, targetSeat = 4, state = Some Seated, timeToTransition = - 100\<rparr>,
        \<lparr>cell = Some 5, targetSeat = 5, state = Some Seated, timeToTransition = - 200\<rparr>]
       [0] [3, 2, 1] 2,
     situation oneRowAircraft
       [[0], [], [], [1], [2], [3]]
       [\<lparr>cell = Some 0, targetSeat = 1, state = Some Searching, timeToTransition = 0\<rparr>,
        \<lparr>cell = Some 3, targetSeat = 2, state = Some LoadingUp, timeToTransition = 0\<rparr>,
        \<lparr>cell = Some 4, targetSeat = 4, state = Some Seated, timeToTransition = - 100\<rparr>,
        \<lparr>cell = Some 5, targetSeat = 5, state = Some Seated, timeToTransition = - 200\<rparr>]
       [] [3, 2, 1, 0] 3,
     situation oneRowAircraft
       [[], [], [1], [0], [2], [3]]
       [\<lparr>cell = Some 3, targetSeat = 1, state = Some Searching, timeToTransition = 0\<rparr>,
        \<lparr>cell = Some 2, targetSeat = 2, state = Some Seated, timeToTransition = - 100\<rparr>,
        \<lparr>cell = Some 4, targetSeat = 4, state = Some Seated, timeToTransition = - 100\<rparr>,
        \<lparr>cell = Some 5, targetSeat = 5, state = Some Seated, timeToTransition = - 200\<rparr>]
       [] [3, 2, 1, 0] 3,
     situation oneRowAircraft
       [[], [], [1], [0], [2], [3]]
       [\<lparr>cell = Some 3, targetSeat = 1, state = Some LoadingUp, timeToTransition = 0\<rparr>,
        \<lparr>cell = Some 2, targetSeat = 2, state = Some Seated, timeToTransition = - 100\<rparr>,
        \<lparr>cell = Some 4, targetSeat = 4, state = Some Seated, timeToTransition = - 100\<rparr>,
        \<lparr>cell = Some 5, targetSeat = 5, state = Some Seated, timeToTransition = - 200\<rparr>]
       [] [3, 2, 1, 0] 4,
     situation oneRowAircraft
       [[], [], [1, 0], [], [2], [3]]
       [\<lparr>cell = Some 2, targetSeat = 1, state = Some LoadingUp, timeToTransition = - 100\<rparr>,
        \<lparr>cell = Some 2, targetSeat = 2, state = Some Seated, timeToTransition = - 100\<rparr>,
        \<lparr>cell = Some 4, targetSeat = 4, state = Some Seated, timeToTransition = - 100\<rparr>,
        \<lparr>cell = Some 5, targetSeat = 5, state = Some Seated, timeToTransition = - 200\<rparr>]
       [] [3, 2, 1, 0] 4,
     situation oneRowAircraft
       [[], [0], [1], [], [2], [3]]
       [\<lparr>cell = Some 1, targetSeat = 1, state = Some Seated, timeToTransition = - 200\<rparr>,
        \<lparr>cell = Some 2, targetSeat = 2, state = Some Seated, timeToTransition = - 100\<rparr>,
        \<lparr>cell = Some 4, targetSeat = 4, state = Some Seated, timeToTransition = - 100\<rparr>,
        \<lparr>cell = Some 5, targetSeat = 5, state = Some Seated, timeToTransition = - 200\<rparr>]
       [] [3, 2, 1, 0] 4]"

text \<open>
  A row with two aisle symbols followed by a row with one. Only the aisle cell created last
  in a row is linked into the chain that leads to the next row; the other one lies between
  two seats of its row.
\<close>

definition twoAisleLayout :: "RowSpec list" where
  "twoAisleLayout = [\<lparr>repeat = 1, layout = js ''SASAS''\<rparr>, \<lparr>repeat = 1, layout = js ''SAS''\<rparr>]"

definition twoAisleAircraft :: Aircraft where
  "twoAisleAircraft =
    \<lparr>grid =
       [\<lparr>xpos = 0, ypos = 64, contents = [], up = None, down = None,
           left = None, right = Some 2, row = None, col = None\<rparr>,
        \<lparr>xpos = 64, ypos = 0, contents = [], up = None, down = Some 2,
           left = None, right = None, row = Some 1, col = Some 65\<rparr>,
        \<lparr>xpos = 64, ypos = 192, contents = [], up = Some 1, down = Some 3,
           left = Some 0, right = Some 4, row = None, col = None\<rparr>,
        \<lparr>xpos = 64, ypos = 128, contents = [], up = Some 2, down = Some 4,
           left = None, right = None, row = Some 1, col = Some 66\<rparr>,
        \<lparr>xpos = 64, ypos = 64, contents = [], up = Some 3, down = Some 5,
           left = Some 2, right = Some 7, row = None, col = None\<rparr>,
        \<lparr>xpos = 64, ypos = 256, contents = [], up = Some 4, down = None,
           left = None, right = None, row = Some 1, col = Some 67\<rparr>,
        \<lparr>xpos = 128, ypos = 0, contents = [], up = None, down = Some 7,
           left = None, right = None, row = Some 2, col = Some 65\<rparr>,
        \<lparr>xpos = 128, ypos = 64, contents = [], up = Some 6, down = Some 8,
           left = Some 4, right = None, row = None, col = None\<rparr>,
        \<lparr>xpos = 128, ypos = 128, contents = [], up = Some 7, down = None,
           left = None, right = None, row = Some 2, col = Some 66\<rparr>],
       startingCell = 0, seats = [1, 3, 5, 6, 8], rows = [1, 2],
       cols = [65, 66, 67]\<rparr>"

definition twoAisleTrace :: "Sim list" where
  "twoAisleTrace =
    [situation twoAisleAircraft
       [[], [], [], [], [], [], [], [], []]
       [\<lparr>cell = None, targetSeat = 1, state = None, timeToTransition = 0\<rparr>,
        \<lparr>cell = None, targetSeat = 3, state = None, timeToTransition = 0\<rparr>,
        \<lparr>cell = None, targetSeat = 5, state = None, timeToTransition = 0\<rparr>,
        \<lparr>cell = None, targetSeat = 6, state = None, timeToTransition = 0\<rparr>,
        \<lparr>cell = None, targetSeat = 8, state = None, timeToTransition = 0\<rparr>]
       [0, 1, 2, 3, 4] [] 0,
     situation twoAisleAircraft
       [[], [], [4], [], [], [], [], [], []]
       [\<lparr>cell = None, targetSeat = 1, state = None, timeToTransition = 0\<rparr>,
        \<lparr>cell = None, targetSeat = 3, state = None, timeToTransition = 0\<rparr>,
        \<lparr>cell = None, targetSeat = 5, state = None, timeToTransition = 0\<rparr>,
        \<lparr>cell = None, targetSeat = 6, state = None, timeToTransition = 0\<rparr>,
        \<lparr>cell = Some 2, targetSeat = 8, state = Some Searching, timeToTransition = 0\<rparr>]
       [0, 1, 2, 3] [4] 0,
     situation twoAisleAircraft
       [[], [], [3], [], [4], [], [], [], []]
       [\<lparr>cell = None, targetSeat = 1, state = None, timeToTransition = 0\<rparr>,
        \<lparr>cell = None, targetSeat = 3, state = None, timeToTransition = 0\<rparr>,
        \<lparr>cell = None, targetSeat = 5, state = None, timeToTransition = 0\<rparr>,
        \<lparr>cell = Some 2, targetSeat = 6, state = Some Searching, timeToTransition = 0\<rparr>,
        \<lparr>cell = Some 4, targetSeat = 8, state = Some Searching, timeToTransition = 0\<rparr>]
       [0, 1, 2] [4, 3] 0,
     situation twoAisleAircraft
       [[], [], [2], [], [3], [], [], [4], []]
       [\<lparr>cell = None, targetSeat = 1, state = None, timeToTransition = 0\<rparr>,
        \<lparr>cell = None, targetSeat = 3, state = None, timeToTransition = 0\<rparr>,
        \<lparr>cell = Some 2, targetSeat = 5, state = Some Searching, timeToTransition = 0\<rparr>,
        \<lparr>cell = Some 4, targetSeat = 6, state = Some Searching, timeToTransition = 0\<rparr>,
        \<lparr>cell = Some 7, targetSeat = 8, state = Some Searching, timeToTransition = 0\<rparr>]
       [0, 1] [4, 3, 2] 0,
     situation twoAisleAircraft
       [[1], [], [2], [], [3], [], [], [4], []]
       [\<lparr>cell = None, targetSeat = 1, state = None, timeToTransition = 0\<rparr>,
        \<lparr>cell = Some 0, targetSeat = 3, state = Some Searching, timeToTransition = 0\<rparr>,
        \<lparr>cell = Some 2, targetSeat = 5, state = Some LoadingDown, timeToTransition = 0\<rparr>,
        \<lparr>cell = Some 4, targetSeat = 6, state = Some Searching, timeToTransition = 0\<rparr>,
        \<lparr>cell = Some 7, targetSeat = 8, state = Some LoadingDown, timeToTransition = 1000\<rparr>]
       [0] [4, 3, 2, 1] 2,
     situation twoAisleAircraft
       [[], [], [1], [2], [3], [], [], [4], []]
       [\<lparr>cell = None, targetSeat = 1, state = None, timeToTransition = 0\<rparr>,
        \<lparr>cell = Some 2, targetSeat = 3, state = Some Searching, timeToTransition = 0\<rparr>,
        \<lparr>cell = Some 3, targetSeat = 5, state = Some LoadingDown, timeToTransition = - 100\<rparr>,
        \<lparr>cell = Some 4, targetSeat = 6, state = Some Searching, timeToTransition = 0\<rparr>,
        \<lparr>cell = Some 7, targetSeat = 8, state = Some LoadingDown, timeToTransition = 900\<rparr>]
       [0] [4, 3, 2, 1] 2,
     situation twoAisleAircraft
       [[0], [], [1], [], [3, 2], [], [], [4], []]
       [\<lparr>cell = Some 0, targetSeat = 1, state = Some Searching, timeToTransition = 0\<rparr>,
        \<lparr>cell = Some 2, targetSeat = 3, state = Some LoadingDown, timeToTransition = 0\<rparr>,
        \<lparr>cell = Some 4, targetSeat = 5, state = Some LoadingDown, timeToTransition = - 200\<rparr>,
        \<lparr>cell = Some 4, targetSeat = 6, state = Some Searching, timeToTransition = 0\<rparr>,
        \<lparr>cell = Some 7, targetSeat = 8, state = Some LoadingDown, timeToTransition = 800\<rparr>]
       [] [4, 3, 2, 1, 0] 3]"

text \<open>
  A row whose last seat comes after 65471 column letters, so that its name, unit 65536
  reduced modulo \<open>2 ^ 16\<close>, is the unit 0.
\<close>

definition wrapLayout :: "RowSpec list" where
  "wrapLayout = [\<lparr>repeat = 1, layout = js ''SA'' @ replicate 65470 43 @ js ''S''\<rparr>]"

definition wrapAircraft :: Aircraft where
  "wrapAircraft =
    \<lparr>grid =
       [\<lparr>xpos = 0, ypos = 64, contents = [], up = None, down = None,
           left = None, right = Some 2, row = None, col = None\<rparr>,
        \<lparr>xpos = 64, ypos = 0, contents = [], up = None, down = Some 2,
           left = None, right = None, row = Some 1, col = Some 65\<rparr>,
        \<lparr>xpos = 64, ypos = 64, contents = [], up = Some 1, down = Some 3,
           left = Some 0, right = None, row = None, col = None\<rparr>,
        \<lparr>xpos = 64, ypos = 4190208, contents = [], up = Some 2, down = None,
           left = None, right = None, row = Some 1, col = Some 0\<rparr>],
       startingCell = 0, seats = [1, 3], rows = [1],
       cols = [65, 0]\<rparr>"

definition wrapTrace :: "Sim list" where
  "wrapTrace =
    [situation wrapAircraft
       [[], [], [], []]
       [\<lparr>cell = None, targetSeat = 1, state = None, timeToTransition = 0\<rparr>,
        \<lparr>cell = None, targetSeat = 3, state = None, timeToTransition = 0\<rparr>]
       [0, 1] [] 0,
     situation wrapAircraft
       [[], [], [1], []]
       [\<lparr>cell = None, targetSeat = 1, state = None, timeToTransition = 0\<rparr>,
        \<lparr>cell = Some 2, targetSeat = 3, state = Some Searching, timeToTransition = 0\<rparr>]
       [0] [1] 0,
     situation wrapAircraft
       [[0], [], [1], []]
       [\<lparr>cell = Some 0, targetSeat = 1, state = Some Searching, timeToTransition = 0\<rparr>,
        \<lparr>cell = Some 2, targetSeat = 3, state = Some LoadingUp, timeToTransition = 0\<rparr>]
       [] [1, 0] 1,
     situation wrapAircraft
       [[], [1], [0], []]
       [\<lparr>cell = Some 2, targetSeat = 1, state = Some Searching, timeToTransition = 0\<rparr>,
        \<lparr>cell = Some 1, targetSeat = 3, state = Some LoadingUp, timeToTransition = - 100\<rparr>]
       [] [1, 0] 1]"

text \<open>A row without an aisle: nothing leads from the starting cell to the seat.\<close>

definition noAisleLayout :: "RowSpec list" where
  "noAisleLayout = [\<lparr>repeat = 1, layout = js ''S''\<rparr>]"

definition noAisleAircraft :: Aircraft where
  "noAisleAircraft =
    \<lparr>grid =
       [\<lparr>xpos = 0, ypos = 0, contents = [], up = None, down = None,
           left = None, right = None, row = None, col = None\<rparr>,
        \<lparr>xpos = 64, ypos = 0, contents = [], up = None, down = None,
           left = None, right = None, row = Some 1, col = Some 65\<rparr>],
       startingCell = 0, seats = [1], rows = [1],
       cols = [65]\<rparr>"

definition noAisleTrace :: "Sim list" where
  "noAisleTrace =
    [situation noAisleAircraft
       [[], []]
       [\<lparr>cell = None, targetSeat = 1, state = None, timeToTransition = 0\<rparr>]
       [0] [] 0,
     situation noAisleAircraft
       [[0], []]
       [\<lparr>cell = Some 0, targetSeat = 1, state = Some Searching, timeToTransition = 0\<rparr>]
       [] [0] 0]"

text \<open>A row in which the letter \<open>B\<close> is reserved and not used: its seats are \<open>1A\<close> and \<open>1C\<close>.\<close>

definition gapLayout :: "RowSpec list" where
  "gapLayout = [\<lparr>repeat = 1, layout = js ''S+AS''\<rparr>]"

definition gapAircraft :: Aircraft where
  "gapAircraft =
    \<lparr>grid =
       [\<lparr>xpos = 0, ypos = 128, contents = [], up = None, down = None,
           left = None, right = Some 2, row = None, col = None\<rparr>,
        \<lparr>xpos = 64, ypos = 0, contents = [], up = None, down = Some 2,
           left = None, right = None, row = Some 1, col = Some 65\<rparr>,
        \<lparr>xpos = 64, ypos = 128, contents = [], up = Some 1, down = Some 3,
           left = Some 0, right = None, row = None, col = None\<rparr>,
        \<lparr>xpos = 64, ypos = 192, contents = [], up = Some 2, down = None,
           left = None, right = None, row = Some 1, col = Some 67\<rparr>],
       startingCell = 0, seats = [1, 3], rows = [1],
       cols = [65, 67]\<rparr>"

section \<open>The layout compiler builds a well-linked grid\<close>


lemma length_linkDown [simp]: "length (linkDown pc n g) = length g"
  by (simp add: linkDown_def split: option.splits)

lemma nth_linkDown:
  "i < length g \<Longrightarrow> linkDown pc n g ! i = (if pc = Some i then (g ! i)\<lparr>down := Some n\<rparr> else g ! i)"
  by (auto simp: linkDown_def nth_list_update split: option.splits)

lemma grid_seatBranch:
  "grid (seatBranch x r j pc k ac) =
     linkDown pc (length (grid ac)) (grid ac) @ [(newSeat x (j * CELLSIZE) r (fromCharCode (65 + k)))\<lparr>up := pc\<rparr>]"
  by (simp add: seatBranch_def addCell_def addSeat_def Let_def)

lemma grid_aisleBranch:
  "grid (aisleBranch x j pc pa ac) =
     linkDown pc (length (grid ac))
       ((grid ac)[pa := (grid ac ! pa)\<lparr>right := Some (length (grid ac)), ypos := j * CELLSIZE\<rparr>])
       @ [(newCell x (j * CELLSIZE))\<lparr>left := Some pa, up := pc\<rparr>]"
  by (simp add: aisleBranch_def addCell_def Let_def)

text \<open>
  One cell is appended to the grid; \<open>aisle\<close> tells that it is a plain cell chained after \<open>pa\<close>.
\<close>

lemma buildOK_extend:
  assumes inv: "buildOK x pc pa g"
    and len: "length g' = Suc (length g)"
    and xs: "\<And>i. i < length g \<Longrightarrow> xpos (g' ! i) = xpos (g ! i)"
    and rs: "\<And>i. i < length g \<Longrightarrow> row (g' ! i) = row (g ! i)"
    and cs: "\<And>i. i < length g \<Longrightarrow> col (g' ! i) = col (g ! i)"
    and us: "\<And>i. i < length g \<Longrightarrow> up (g' ! i) = up (g ! i)"
    and ls: "\<And>i. i < length g \<Longrightarrow> left (g' ! i) = left (g ! i)"
    and ds: "\<And>i. i < length g \<Longrightarrow> down (g' ! i) = (if pc = Some i then Some (length g) else down (g ! i))"
    and rts: "\<And>i. i < length g \<Longrightarrow> right (g' ! i) = (if aisle \<and> i = pa then Some (length g) else right (g ! i))"
    and cx: "xpos (g' ! length g) = x"
    and cu: "up (g' ! length g) = pc"
    and cd: "down (g' ! length g) = None"
    and cr: "right (g' ! length g) = None"
    and cl: "left (g' ! length g) = (if aisle then Some pa else None)"
    and crow: "row (g' ! length g) = (if aisle then None else Some r)"
    and ccol: "(col (g' ! length g) = None) = aisle"
    and xr: "x = CELLSIZE * r"
  shows "buildOK x (Some (length g)) (if aisle then length g else pa) g'"
proof -
  let ?n = "length g"
  from inv have ok: "gridOK g" and x0: "0 < x" and le: "\<And>i. i < ?n \<Longrightarrow> xpos (g ! i) \<le> x"
    and pc: "pc = (if xpos (last g) = x then Some (?n - 1) else None)"
    and pa: "pa < ?n" "row (g ! pa) = None" "right (g ! pa) = None"
    by (auto simp: buildOK_def)
  have ne: "g \<noteq> []" using ok unfolding gridOK_def by blast
  then have n0: "0 < ?n" by simp
  have lastn: "last g = g ! (?n - 1)" using ne by (simp add: last_conv_nth)
  have pcn: "\<And>i. (pc = Some i) = (i = ?n - 1 \<and> xpos (g ! (?n - 1)) = x)" using pc lastn by auto
  have split: "\<And>i. i < Suc ?n \<Longrightarrow> i < ?n \<or> i = ?n" by auto
  have g0: "xpos (g ! 0) = 0" "row (g ! 0) = None" using ok unfolding gridOK_def by blast+
  have gpos: "\<And>i. i < ?n \<Longrightarrow> 0 < i \<Longrightarrow> 0 < xpos (g ! i)" using ok unfolding gridOK_def by blast+
  have gmono: "\<And>i k. i < ?n \<Longrightarrow> k < ?n \<Longrightarrow> i \<le> k \<Longrightarrow> xpos (g ! i) \<le> xpos (g ! k)" using ok unfolding gridOK_def by blast+
  have gup: "\<And>i. i < ?n \<Longrightarrow> up (g ! i) = (if 0 < i \<and> xpos (g ! (i - 1)) = xpos (g ! i) then Some (i - 1) else None)" using ok unfolding gridOK_def by blast+
  have gdown: "\<And>i. i < ?n \<Longrightarrow> down (g ! i) = (if Suc i < ?n \<and> xpos (g ! Suc i) = xpos (g ! i) then Some (Suc i) else None)" using ok unfolding gridOK_def by blast+
  have gright: "\<And>i k. i < ?n \<Longrightarrow> right (g ! i) = Some k \<Longrightarrow> k < ?n \<and> left (g ! k) = Some i \<and> row (g ! k) = None" using ok unfolding gridOK_def by blast+
  have gleft: "\<And>i k. k < ?n \<Longrightarrow> left (g ! k) = Some i \<Longrightarrow> i < ?n \<and> right (g ! i) = Some k" using ok unfolding gridOK_def by blast+
  have grow: "\<And>i r. i < ?n \<Longrightarrow> row (g ! i) = Some r \<Longrightarrow> xpos (g ! i) = CELLSIZE * r" using ok unfolding gridOK_def by blast+
  have gcol: "\<And>i. i < ?n \<Longrightarrow> (row (g ! i) = None) = (col (g ! i) = None)" using ok unfolding gridOK_def by blast+
  have 1: "g' \<noteq> []" using len by auto
  have 2: "xpos (g' ! 0) = 0" "row (g' ! 0) = None" using n0 xs rs g0 by auto
  have 3: "\<forall>i<length g'. 0 < i \<longrightarrow> 0 < xpos (g' ! i)"
    using len xs gpos cx x0 by (auto dest!: split)
  have 4: "\<forall>i<length g'. \<forall>k<length g'. i \<le> k \<longrightarrow> xpos (g' ! i) \<le> xpos (g' ! k)"
    using len xs gmono cx le by (auto dest!: split)
  have 5: "\<forall>i<length g'. up (g' ! i) = (if 0 < i \<and> xpos (g' ! (i - 1)) = xpos (g' ! i) then Some (i - 1) else None)"
  proof (intro allI impI)
    fix i assume "i < length g'"
    then consider "i < ?n" | "i = ?n" using len by fastforce
    then show "up (g' ! i) = (if 0 < i \<and> xpos (g' ! (i - 1)) = xpos (g' ! i) then Some (i - 1) else None)"
    proof cases
      case 1
      then show ?thesis using us xs gup by (cases i) auto
    next
      case 2
      then show ?thesis using cu cx pc lastn n0 xs[of "length g - 1"] by auto
    qed
  qed
  have 6: "\<forall>i<length g'. down (g' ! i) = (if Suc i < length g' \<and> xpos (g' ! Suc i) = xpos (g' ! i) then Some (Suc i) else None)"
  proof (intro allI impI)
    fix i assume "i < length g'"
    then consider "Suc i < ?n" | "Suc i = ?n" | "i = ?n" using len by fastforce
    then show "down (g' ! i) = (if Suc i < length g' \<and> xpos (g' ! Suc i) = xpos (g' ! i) then Some (Suc i) else None)"
    proof cases
      case 1
      then show ?thesis using ds xs gdown len pcn by auto
    next
      case 2
      then have i: "i < ?n" and i1: "?n - 1 = i" by auto
      have d0: "down (g ! i) = None" using gdown[OF i] 2 by simp
      have d1: "down (g' ! i) = (if xpos (g ! i) = x then Some ?n else None)"
        using ds[OF i] pcn[of i] d0 i1 by simp
      have "xpos (g' ! Suc i) = x" using cx 2 by simp
      then show ?thesis using d1 xs[OF i] len 2 by simp
    next
      case 3
      then show ?thesis using cd len by auto
    qed
  qed
  have 7: "\<forall>i<length g'. \<forall>k. right (g' ! i) = Some k \<longrightarrow> k < length g' \<and> left (g' ! k) = Some i \<and> row (g' ! k) = None"
  proof (intro allI impI)
    fix i k assume i: "i < length g'" and rk: "right (g' ! i) = Some k"
    from i consider "i < ?n" | "i = ?n" using len by fastforce
    then show "k < length g' \<and> left (g' ! k) = Some i \<and> row (g' ! k) = None"
    proof cases
      case 1
      show ?thesis
      proof (cases "aisle \<and> i = pa")
        case True
        then show ?thesis using rk rts[OF 1] len cl crow by auto
      next
        case False
        then have "right (g ! i) = Some k" using rk rts[OF 1] by auto
        from gright[OF 1 this] show ?thesis using len ls rs by auto
      qed
    next
      case 2
      then show ?thesis using rk cr by auto
    qed
  qed
  have 8: "\<forall>k<length g'. \<forall>i. left (g' ! k) = Some i \<longrightarrow> i < length g' \<and> right (g' ! i) = Some k"
  proof (intro allI impI)
    fix k i assume k: "k < length g'" and lk: "left (g' ! k) = Some i"
    from k consider "k < ?n" | "k = ?n" using len by fastforce
    then show "i < length g' \<and> right (g' ! i) = Some k"
    proof cases
      case 1
      then have "left (g ! k) = Some i" using lk ls by auto
      from gleft[OF 1 this] have i: "i < ?n" "right (g ! i) = Some k" by auto
      then have "i \<noteq> pa" using pa by auto
      then show ?thesis using i rts[of i] len by auto
    next
      case 2
      then show ?thesis using lk cl pa rts[of pa] len by (auto split: if_splits)
    qed
  qed
  have 9: "\<forall>i<length g'. \<forall>r. row (g' ! i) = Some r \<longrightarrow> xpos (g' ! i) = CELLSIZE * r"
    using len xs rs grow cx crow xr by (auto dest!: split split: if_splits)
  have 10: "\<forall>i<length g'. (row (g' ! i) = None) = (col (g' ! i) = None)"
    using len rs cs gcol crow ccol by (auto dest!: split split: if_splits)
  have ok': "gridOK g'"
    unfolding gridOK_def by (intro conjI 1 2 3 4 5 6 7 8 9 10)
  have a: "\<forall>i<length g'. xpos (g' ! i) \<le> x" using len xs le cx by (auto dest!: split)
  have b: "Some ?n = (if xpos (last g') = x then Some (length g' - 1) else None)"
    using len cx 1 by (simp add: last_conv_nth)
  have c: "(if aisle then ?n else pa) < length g'" using len pa by auto
  have d: "row (g' ! (if aisle then ?n else pa)) = None" using crow rs pa by auto
  have e: "right (g' ! (if aisle then ?n else pa)) = None" using cr rts[of pa] pa by auto
  show ?thesis unfolding buildOK_def by (intro conjI ok' x0 a b c d e)
qed


lemma nth_old_seatBranch:
  "i < length (grid ac) \<Longrightarrow>
     grid (seatBranch x r j pc k ac) ! i =
       (if pc = Some i then (grid ac ! i)\<lparr>down := Some (length (grid ac))\<rparr> else grid ac ! i)"
  by (simp add: grid_seatBranch nth_append nth_linkDown)

lemma nth_new_seatBranch:
  "grid (seatBranch x r j pc k ac) ! length (grid ac) =
     (newSeat x (j * CELLSIZE) r (fromCharCode (65 + k)))\<lparr>up := pc\<rparr>"
  by (simp add: grid_seatBranch nth_append)

lemma nth_old_aisleBranch:
  "i < length (grid ac) \<Longrightarrow>
     grid (aisleBranch x j pc pa ac) ! i =
       (let c = (if i = pa then (grid ac ! i)\<lparr>right := Some (length (grid ac)), ypos := j * CELLSIZE\<rparr> else grid ac ! i)
        in if pc = Some i then c\<lparr>down := Some (length (grid ac))\<rparr> else c)"
  by (simp add: grid_aisleBranch nth_append nth_linkDown nth_list_update)

lemma nth_new_aisleBranch:
  "grid (aisleBranch x j pc pa ac) ! length (grid ac) =
     (newCell x (j * CELLSIZE))\<lparr>left := Some pa, up := pc\<rparr>"
  by (simp add: grid_aisleBranch nth_append)

lemma buildOK_seatBranch:
  assumes "buildOK x pc pa (grid ac)" and "x = CELLSIZE * r"
  shows "buildOK x (Some (length (grid ac))) pa (grid (seatBranch x r j pc k ac))"
proof -
  have "buildOK x (Some (length (grid ac))) (if False then length (grid ac) else pa) (grid (seatBranch x r j pc k ac))"
  proof (rule buildOK_extend[OF assms(1), where r = r])
    show "length (grid (seatBranch x r j pc k ac)) = Suc (length (grid ac))"
      by (simp add: grid_seatBranch)
  qed (simp_all add: nth_old_seatBranch nth_new_seatBranch newSeat_def newCell_def assms(2))
  then show ?thesis by simp
qed

lemma buildOK_aisleBranch:
  assumes "buildOK x pc pa (grid ac)" and "x = CELLSIZE * r"
  shows "buildOK x (Some (length (grid ac))) (length (grid ac)) (grid (aisleBranch x j pc pa ac))"
proof -
  have "buildOK x (Some (length (grid ac))) (if True then length (grid ac) else pa) (grid (aisleBranch x j pc pa ac))"
  proof (rule buildOK_extend[OF assms(1), where r = r])
    show "length (grid (aisleBranch x j pc pa ac)) = Suc (length (grid ac))"
      by (simp add: grid_aisleBranch)
  qed (simp_all add: nth_old_aisleBranch nth_new_aisleBranch newCell_def assms(2) Let_def)
  then show ?thesis by simp
qed

lemma buildOK_layoutLoop:
  "buildOK x pc pa (grid ac) \<Longrightarrow> x = CELLSIZE * r \<Longrightarrow>
   \<exists>pc'. buildOK x pc' (snd (layoutLoop x r pat j pc k (ac, pa))) (grid (fst (layoutLoop x r pat j pc k (ac, pa))))"
proof (induction pat arbitrary: j pc k ac pa)
  case Nil
  then show ?case by auto
next
  case (Cons s pat)
  show ?case
  proof (cases "s = 83")
    case True
    have b: "buildOK x (Some (length (grid ac))) pa (grid (seatBranch x r j pc k ac))"
      using Cons.prems by (rule buildOK_seatBranch)
    from Cons.IH[OF b Cons.prems(2)] True show ?thesis by simp
  next
    case False
    show ?thesis
    proof (cases "s = 65")
      case True
      have b: "buildOK x (Some (length (grid ac))) (length (grid ac)) (grid (aisleBranch x j pc pa ac))"
        using Cons.prems by (rule buildOK_aisleBranch)
      from Cons.IH[OF b Cons.prems(2)] True show ?thesis by simp
    next
      case False
      with \<open>s \<noteq> 83\<close> Cons.IH[OF Cons.prems] show ?thesis by simp
    qed
  qed
qed

lemma gridOK_nonempty: "gridOK g \<Longrightarrow> g \<noteq> []"
  unfolding gridOK_def by blast

lemma rowsOK_buildOK:
  assumes "rowsOK x pa g" and "x < x'"
  shows "buildOK x' None pa g"
proof -
  from assms(1) have ok: "gridOK g" and le: "\<And>i. i < length g \<Longrightarrow> xpos (g ! i) \<le> x"
    and pa: "pa < length g" "row (g ! pa) = None" "right (g ! pa) = None"
    unfolding rowsOK_def by blast+
  have ne: "g \<noteq> []" using ok by (rule gridOK_nonempty)
  then have "xpos (last g) \<le> x" using le[of "length g - 1"] by (simp add: last_conv_nth)
  then have l: "None = (if xpos (last g) = x' then Some (length g - 1) else None)" using assms(2) by simp
  have le': "\<forall>i<length g. xpos (g ! i) \<le> x'" using le assms(2) by (auto intro: order_trans less_imp_le)
  have x0: "0 < x'" using assms(2) by simp
  show ?thesis unfolding buildOK_def by (intro conjI ok x0 le' l pa)
qed

lemma buildOK_rowsOK: "buildOK x pc pa g \<Longrightarrow> rowsOK x pa g"
  unfolding rowsOK_def buildOK_def by blast

lemma rowsOK_repeatLoop:
  "rowsOK x pa (grid ac) \<Longrightarrow> x + CELLSIZE = CELLSIZE * r \<Longrightarrow>
   repeatLoop n pat (ac, pa, x, r) = (ac', pa', x', r') \<Longrightarrow>
   rowsOK x' pa' (grid ac') \<and> x' + CELLSIZE = CELLSIZE * r'"
proof (induction n arbitrary: ac pa x r)
  case 0
  then show ?case by simp
next
  case (Suc n)
  let ?x1 = "x + CELLSIZE"
  obtain ac1 pa1 where l: "layoutLoop ?x1 r pat 0 None 0 (ac, pa) = (ac1, pa1)" by (cases "layoutLoop ?x1 r pat 0 None 0 (ac, pa)")
  have b: "buildOK ?x1 None pa (grid ac)" using Suc.prems(1) by (rule rowsOK_buildOK) (simp add: CELLSIZE_def)
  from buildOK_layoutLoop[OF b Suc.prems(2), of pat 0 0] l
  have r1: "rowsOK ?x1 pa1 (grid ac1)" by (auto dest: buildOK_rowsOK)
  have e: "?x1 + CELLSIZE = CELLSIZE * (r + 1)" using Suc.prems(2) by simp
  from Suc.prems(3) l have "repeatLoop n pat (ac1, pa1, ?x1, r + 1) = (ac', pa', x', r')" by (simp add: Let_def)
  from Suc.IH[OF r1 e this] show ?case .
qed

lemma rowsOK_specLoop:
  "rowsOK x pa (grid ac) \<Longrightarrow> x + CELLSIZE = CELLSIZE * r \<Longrightarrow>
   specLoop specs (ac, pa, x, r) = (ac', pa', x', r') \<Longrightarrow>
   rowsOK x' pa' (grid ac') \<and> x' + CELLSIZE = CELLSIZE * r'"
proof (induction specs arbitrary: ac pa x r)
  case Nil
  then show ?case by simp
next
  case (Cons sp specs)
  obtain ac1 pa1 x1 r1 where l: "repeatLoop (nat (repeat sp)) (layout sp) (ac, pa, x, r) = (ac1, pa1, x1, r1)"
    by (cases "repeatLoop (nat (repeat sp)) (layout sp) (ac, pa, x, r)") auto
  from rowsOK_repeatLoop[OF Cons.prems(1,2) l] have 1: "rowsOK x1 pa1 (grid ac1)" "x1 + CELLSIZE = CELLSIZE * r1" by auto
  from Cons.prems(3) l have "specLoop specs (ac1, pa1, x1, r1) = (ac', pa', x', r')" by simp
  from Cons.IH[OF 1 this] show ?case .
qed

lemma rowsOK_initial: "rowsOK 0 0 (grid (newAircraft (newCell 0 0)))"
  unfolding rowsOK_def gridOK_def by (simp add: newAircraft_def newCell_def)

lemma gridOK_generateAircraft: "gridOK (grid (generateAircraft seatLayout))"
proof -
  obtain ac' pa' x' r' where l: "specLoop seatLayout (newAircraft (newCell 0 0), 0, 0, 1) = (ac', pa', x', r')"
    by (cases "specLoop seatLayout (newAircraft (newCell 0 0), 0, 0, 1)") auto
  from rowsOK_specLoop[OF rowsOK_initial _ l] have "rowsOK x' pa' (grid ac')" by simp
  then show ?thesis using l by (simp add: generateAircraft_def rowsOK_def)
qed

section \<open>Neighbour links\<close>

lemma js_SSASS: "js ''SSASS'' = [83, 83, 65, 83, 83]"
  by (simp add: js_def)

lemma generate_oneRow: "generateAircraft oneRowLayout = oneRowAircraft"
  by (simp add: generateAircraft_def oneRowLayout_def js_SSASS newAircraft_def newCell_def newSeat_def
        seatBranch_def aisleBranch_def addCell_def addSeat_def linkDown_def set_add_def fromCharCode_def
        CELLSIZE_def oneRowAircraft_def Let_def)

lemma gridOK_links:
  assumes "gridOK g" and "a < length g"
  shows "right (g ! a) = Some b \<Longrightarrow> b < length g \<and> left (g ! b) = Some a"
    and "left (g ! a) = Some b \<Longrightarrow> b < length g \<and> right (g ! b) = Some a"
    and "up (g ! a) = Some b \<Longrightarrow> b < length g \<and> down (g ! b) = Some a"
    and "down (g ! a) = Some b \<Longrightarrow> b < length g \<and> up (g ! b) = Some a"
proof -
  have gup: "\<And>i. i < length g \<Longrightarrow> up (g ! i) = (if 0 < i \<and> xpos (g ! (i - 1)) = xpos (g ! i) then Some (i - 1) else None)"
    using assms(1) unfolding gridOK_def by blast
  have gdown: "\<And>i. i < length g \<Longrightarrow> down (g ! i) = (if Suc i < length g \<and> xpos (g ! Suc i) = xpos (g ! i) then Some (Suc i) else None)"
    using assms(1) unfolding gridOK_def by blast
  have gright: "\<And>i k. i < length g \<Longrightarrow> right (g ! i) = Some k \<Longrightarrow> k < length g \<and> left (g ! k) = Some i \<and> row (g ! k) = None"
    using assms(1) unfolding gridOK_def by blast
  have gleft: "\<And>i k. k < length g \<Longrightarrow> left (g ! k) = Some i \<Longrightarrow> i < length g \<and> right (g ! i) = Some k"
    using assms(1) unfolding gridOK_def by blast
  show "right (g ! a) = Some b \<Longrightarrow> b < length g \<and> left (g ! b) = Some a"
    using gright[OF assms(2)] by blast
  show "left (g ! a) = Some b \<Longrightarrow> b < length g \<and> right (g ! b) = Some a"
    using gleft[OF assms(2)] by blast
  show "b < length g \<and> down (g ! b) = Some a" if u: "up (g ! a) = Some b"
  proof -
    from u gup[OF assms(2)] have b: "0 < a" "xpos (g ! (a - 1)) = xpos (g ! a)" "b = a - 1"
      by (auto split: if_splits)
    then have "b < length g" "Suc b = a" using assms(2) by auto
    then show ?thesis using gdown[of b] b assms(2) by simp
  qed
  show "b < length g \<and> up (g ! b) = Some a" if d: "down (g ! a) = Some b"
  proof -
    from d gdown[OF assms(2)] have b: "Suc a < length g" "xpos (g ! Suc a) = xpos (g ! a)" "b = Suc a"
      by (auto split: if_splits)
    then show ?thesis using gup[of b] by simp
  qed
qed

text \<open>
  Claim C6. In the grid compiled from any layout, the neighbour links are symmetric:
  if the right (left, up, down) neighbour of a cell \<open>a\<close> is \<open>b\<close>, then \<open>b\<close> is a cell of
  the grid and its left (right, down, up) neighbour is \<open>a\<close>.
\<close>

theorem neighbour_links_symmetric:
  assumes "g = grid (generateAircraft seatLayout)" and "a < length g"
  shows "(right (g ! a) = Some b \<longrightarrow> b < length g \<and> left (g ! b) = Some a) \<and>
         (left (g ! a) = Some b \<longrightarrow> b < length g \<and> right (g ! b) = Some a) \<and>
         (up (g ! a) = Some b \<longrightarrow> b < length g \<and> down (g ! b) = Some a) \<and>
         (down (g ! a) = Some b \<longrightarrow> b < length g \<and> up (g ! b) = Some a)"
proof -
  have ok: "gridOK g" using assms(1) gridOK_generateAircraft by simp
  show ?thesis using gridOK_links[OF ok assms(2)] by blast
qed

theorem neighbour_links_symmetric_witness:
  "(3::nat) < length (grid (generateAircraft oneRowLayout)) \<and>
   right (grid (generateAircraft oneRowLayout) ! 0) = Some 3 \<and>
   left (grid (generateAircraft oneRowLayout) ! 3) = Some 0 \<and>
   down (grid (generateAircraft oneRowLayout) ! 3) = Some 4 \<and>
   up (grid (generateAircraft oneRowLayout) ! 4) = Some 3"
proof -
  let ?g = "grid (generateAircraft oneRowLayout)"
  have l: "(0::nat) < length ?g" "(3::nat) < length ?g"
    by (simp_all add: generate_oneRow oneRowAircraft_def)
  have r: "right (?g ! 0) = Some 3" and d: "down (?g ! 3) = Some 4"
    by (simp_all add: generate_oneRow oneRowAircraft_def)
  from neighbour_links_symmetric[OF refl l(1), where b = 3] r
  have "left (?g ! 3) = Some 0" by blast
  moreover from neighbour_links_symmetric[OF refl l(2), where b = 4] d
  have "up (?g ! 4) = Some 3" by blast
  ultimately show ?thesis using l r d by blast
qed

section \<open>Seat letters\<close>

lemma filter_upt_Suc:
  "filter P [0..<Suc n] = (if P 0 then [0] else []) @ map Suc (filter (\<lambda>i. P (Suc i)) [0..<n])"
proof -
  have "[0..<Suc n] = 0 # map Suc [0..<n]" by (simp add: upt_conv_Cons map_Suc_upt del: upt_Suc)
  then show ?thesis by (simp add: filter_map comp_def del: upt_Suc)
qed

lemma slotsBefore_Cons:
  "slotsBefore (s # pat) (Suc i) = (if s = 83 \<or> s = 43 then 1 else 0) + slotsBefore pat i"
  by (simp add: slotsBefore_def)

lemma slotsBefore_0 [simp]: "slotsBefore pat 0 = 0"
  by (simp add: slotsBefore_def)

lemma rowSeatsFrom_Nil [simp]: "rowSeatsFrom x r j k [] = []"
  by (simp add: rowSeatsFrom_def)

lemma rowSeatsFrom_Cons:
  "rowSeatsFrom x r j k (s # pat) =
     (if s = 83 then [(Some r, Some (fromCharCode (65 + k)), x, j * CELLSIZE)] else []) @
     rowSeatsFrom x r (Suc j) (if s = 83 \<or> s = 43 then Suc k else k) pat"
  by (simp add: rowSeatsFrom_def filter_upt_Suc slotsBefore_Cons comp_def del: upt_Suc)

lemma seatView_seatBranch:
  assumes "seatsInv ac pa"
  shows "map (seatView (grid (seatBranch x r j pc k ac))) (seats (seatBranch x r j pc k ac)) =
           map (seatView (grid ac)) (seats ac) @ [(Some r, Some (fromCharCode (65 + k)), x, j * CELLSIZE)]"
    and "seatsInv (seatBranch x r j pc k ac) pa"
proof -
  let ?ac' = "seatBranch x r j pc k ac"
  have s: "seats ?ac' = seats ac @ [length (grid ac)]"
    by (simp add: seatBranch_def addCell_def addSeat_def Let_def)
  have g: "grid ?ac' = linkDown pc (length (grid ac)) (grid ac) @ [(newSeat x (j * CELLSIZE) r (fromCharCode (65 + k)))\<lparr>up := pc\<rparr>]"
    by (simp add: seatBranch_def addCell_def addSeat_def Let_def)
  have old: "\<And>i. i < length (grid ac) \<Longrightarrow> seatView (grid ?ac') i = seatView (grid ac) i"
    by (simp add: seatView_def nth_old_seatBranch)
  have new: "seatView (grid ?ac') (length (grid ac)) = (Some r, Some (fromCharCode (65 + k)), x, j * CELLSIZE)"
    by (simp add: seatView_def nth_new_seatBranch newSeat_def newCell_def)
  from assms have v: "\<And>s. s \<in> set (seats ac) \<Longrightarrow> s < length (grid ac)" by (simp add: seatsInv_def)
  show "map (seatView (grid ?ac')) (seats ?ac') = map (seatView (grid ac)) (seats ac) @ [(Some r, Some (fromCharCode (65 + k)), x, j * CELLSIZE)]"
    using v by (simp add: s old new)
  have rw: "\<And>i. i < length (grid ac) \<Longrightarrow> row (grid ?ac' ! i) = row (grid ac ! i)"
    using old by (simp add: seatView_def)
  have rn: "row (grid ?ac' ! length (grid ac)) = Some r" using new by (simp add: seatView_def)
  have l: "length (grid ?ac') = Suc (length (grid ac))" by (simp add: g)
  show "seatsInv ?ac' pa"
    using assms unfolding seatsInv_def s l by (auto simp: rw rn less_Suc_eq)
qed


lemma seatView_aisleBranch:
  assumes "seatsInv ac pa"
  shows "map (seatView (grid (aisleBranch x j pc pa ac))) (seats (aisleBranch x j pc pa ac)) =
           map (seatView (grid ac)) (seats ac)"
    and "seatsInv (aisleBranch x j pc pa ac) (length (grid ac))"
proof -
  let ?ac' = "aisleBranch x j pc pa ac"
  have s: "seats ?ac' = seats ac"
    by (simp add: aisleBranch_def addCell_def Let_def)
  from assms have v: "\<And>s. s \<in> set (seats ac) \<Longrightarrow> s < length (grid ac) \<and> s \<noteq> pa"
    by (auto simp: seatsInv_def)
  have old: "\<And>i. i < length (grid ac) \<Longrightarrow> i \<noteq> pa \<Longrightarrow> seatView (grid ?ac') i = seatView (grid ac) i"
    by (simp add: seatView_def nth_old_aisleBranch Let_def)
  show "map (seatView (grid ?ac')) (seats ?ac') = map (seatView (grid ac)) (seats ac)"
    using v by (simp add: s old)
  have rw: "\<And>i. i < length (grid ac) \<Longrightarrow> row (grid ?ac' ! i) = row (grid ac ! i)"
    by (simp add: nth_old_aisleBranch Let_def)
  have rn: "row (grid ?ac' ! length (grid ac)) = None" by (simp add: nth_new_aisleBranch newCell_def)
  have l: "length (grid ?ac') = Suc (length (grid ac))" by (simp add: grid_aisleBranch)
  show "seatsInv ?ac' (length (grid ac))"
    using assms unfolding seatsInv_def s l by (auto simp: rw rn less_Suc_eq)
qed

lemma seatView_layoutLoop:
  "seatsInv ac pa \<Longrightarrow>
   map (seatView (grid (fst (layoutLoop x r pat j pc k (ac, pa))))) (seats (fst (layoutLoop x r pat j pc k (ac, pa)))) =
     map (seatView (grid ac)) (seats ac) @ rowSeatsFrom x r j k pat \<and>
   seatsInv (fst (layoutLoop x r pat j pc k (ac, pa))) (snd (layoutLoop x r pat j pc k (ac, pa)))"
proof (induction pat arbitrary: j pc k ac pa)
  case Nil
  then show ?case by simp
next
  case (Cons s pat)
  show ?case
  proof (cases "s = 83")
    case True
    note sb = seatView_seatBranch[OF Cons.prems, of x r j pc k]
    from Cons.IH[OF sb(2), where j = "Suc j" and pc = "Some (length (grid ac))" and k = "Suc k"] sb(1) True
    show ?thesis by (simp add: rowSeatsFrom_Cons)
  next
    case False
    show ?thesis
    proof (cases "s = 65")
      case True
      note ab = seatView_aisleBranch[OF Cons.prems, of x j pc]
      from Cons.IH[OF ab(2), where j = "Suc j" and pc = "Some (length (grid ac))" and k = k] ab(1) True
      show ?thesis by (simp add: rowSeatsFrom_Cons)
    next
      case False
      with \<open>s \<noteq> 83\<close> Cons.IH[OF Cons.prems, where j = "Suc j" and pc = pc] show ?thesis
        by (simp add: rowSeatsFrom_Cons)
    qed
  qed
qed

lemma rowSeatsFrom_start: "rowSeatsFrom (CELLSIZE * r) r 0 0 pat = rowSeats r pat"
  by (simp add: rowSeatsFrom_def rowSeats_def)

lemma seatView_repeatLoop:
  "seatsInv ac pa \<Longrightarrow> x + CELLSIZE = CELLSIZE * r \<Longrightarrow>
   repeatLoop n pat (ac, pa, x, r) = (ac', pa', x', r') \<Longrightarrow>
   map (seatView (grid ac')) (seats ac') = map (seatView (grid ac)) (seats ac) @ seatsOfRows r (replicate n pat) \<and>
   seatsInv ac' pa' \<and> x' + CELLSIZE = CELLSIZE * r' \<and> r' = r + n"
proof (induction n arbitrary: ac pa x r)
  case 0
  then show ?case by simp
next
  case (Suc n)
  let ?x1 = "x + CELLSIZE"
  obtain ac1 pa1 where l: "layoutLoop ?x1 r pat 0 None 0 (ac, pa) = (ac1, pa1)"
    by (cases "layoutLoop ?x1 r pat 0 None 0 (ac, pa)")
  from seatView_layoutLoop[OF Suc.prems(1), of ?x1 r pat 0 None 0] l
  have v1: "map (seatView (grid ac1)) (seats ac1) = map (seatView (grid ac)) (seats ac) @ rowSeats r pat"
    and i1: "seatsInv ac1 pa1"
    using Suc.prems(2) by (simp_all add: rowSeatsFrom_start)
  have e: "?x1 + CELLSIZE = CELLSIZE * (r + 1)" using Suc.prems(2) by simp
  from Suc.prems(3) l have "repeatLoop n pat (ac1, pa1, ?x1, r + 1) = (ac', pa', x', r')" by (simp add: Let_def)
  from Suc.IH[OF i1 e this] v1 show ?case by simp
qed

lemma seatsOfRows_append:
  "seatsOfRows r (ps @ qs) = seatsOfRows r ps @ seatsOfRows (r + length ps) qs"
  by (induction ps arbitrary: r) simp_all

lemma seatView_specLoop:
  "seatsInv ac pa \<Longrightarrow> x + CELLSIZE = CELLSIZE * r \<Longrightarrow>
   specLoop specs (ac, pa, x, r) = (ac', pa', x', r') \<Longrightarrow>
   map (seatView (grid ac')) (seats ac') = map (seatView (grid ac)) (seats ac) @ seatsOfRows r (expandRows specs) \<and>
   seatsInv ac' pa'"
proof (induction specs arbitrary: ac pa x r)
  case Nil
  then show ?case by (simp add: expandRows_def)
next
  case (Cons sp specs)
  obtain ac1 pa1 x1 r1 where l: "repeatLoop (nat (repeat sp)) (layout sp) (ac, pa, x, r) = (ac1, pa1, x1, r1)"
    by (cases "repeatLoop (nat (repeat sp)) (layout sp) (ac, pa, x, r)") auto
  note 1 = seatView_repeatLoop[OF Cons.prems(1,2) l]
  from Cons.prems(3) l have "specLoop specs (ac1, pa1, x1, r1) = (ac', pa', x', r')" by simp
  from Cons.IH[OF _ _ this] 1 show ?case
    by (simp add: expandRows_def seatsOfRows_append)
qed

lemma length_grid_layoutLoop:
  "length (grid (fst (layoutLoop x r pat j pc k (ac, pa)))) =
     length (grid ac) + length (filter (\<lambda>s. s = 83 \<or> s = 65) pat)"
  by (induction pat arbitrary: j pc k ac pa) (simp_all add: grid_seatBranch grid_aisleBranch)

lemma length_grid_repeatLoop:
  "length (grid (fst (repeatLoop n pat (ac, pa, x, r)))) =
     length (grid ac) + length (filter (\<lambda>s. s = 83 \<or> s = 65) (concat (replicate n pat)))"
proof (induction n arbitrary: ac pa x r)
  case 0
  then show ?case by simp
next
  case (Suc n)
  obtain ac1 pa1 where l: "layoutLoop (x + CELLSIZE) r pat 0 None 0 (ac, pa) = (ac1, pa1)"
    by (cases "layoutLoop (x + CELLSIZE) r pat 0 None 0 (ac, pa)")
  have "length (grid ac1) = length (grid ac) + length (filter (\<lambda>s. s = 83 \<or> s = 65) pat)"
    using length_grid_layoutLoop[of "x + CELLSIZE" r pat 0 None 0 ac pa] l by simp
  then show ?case using Suc.IH[of ac1 pa1 "x + CELLSIZE" "r + 1"] l by (simp add: Let_def)
qed

lemma length_grid_specLoop:
  "length (grid (fst (specLoop specs (ac, pa, x, r)))) =
     length (grid ac) + length (filter (\<lambda>s. s = 83 \<or> s = 65) (concat (expandRows specs)))"
proof (induction specs arbitrary: ac pa x r)
  case Nil
  then show ?case by (simp add: expandRows_def)
next
  case (Cons sp specs)
  obtain ac1 pa1 x1 r1 where l: "repeatLoop (nat (repeat sp)) (layout sp) (ac, pa, x, r) = (ac1, pa1, x1, r1)"
    by (cases "repeatLoop (nat (repeat sp)) (layout sp) (ac, pa, x, r)") auto
  have "length (grid ac1) = length (grid ac) + length (filter (\<lambda>s. s = 83 \<or> s = 65) (concat (replicate (nat (repeat sp)) (layout sp))))"
    using length_grid_repeatLoop[of "nat (repeat sp)" "layout sp" ac pa x r] l by simp
  then show ?case using Cons.IH[of ac1 pa1 x1 r1] l by (simp add: expandRows_def)
qed

lemma seatsInv_generateAircraft:
  "\<forall>s\<in>set (seats (generateAircraft seatLayout)).
      s < length (grid (generateAircraft seatLayout)) \<and> row (grid (generateAircraft seatLayout) ! s) \<noteq> None"
proof -
  obtain ac' pa' x' r' where l: "specLoop seatLayout (newAircraft (newCell 0 0), 0, 0, 1) = (ac', pa', x', r')"
    by (cases "specLoop seatLayout (newAircraft (newCell 0 0), 0, 0, 1)") auto
  have i: "seatsInv (newAircraft (newCell 0 0)) 0"
    by (simp add: seatsInv_def newAircraft_def newCell_def)
  from seatView_specLoop[OF i _ l] have "seatsInv ac' pa'" by simp
  then show ?thesis using l by (simp add: generateAircraft_def seatsInv_def)
qed

text \<open>
  Claim C7. The seats of the compiled grid, in the order of the seat list, are exactly
  these: the rows are numbered from 1, and in the row compiled from the pattern \<open>pat\<close>
  there is one seat for every position \<open>j\<close> that holds \<open>'S'\<close>, placed at \<open>y = j * CELLSIZE\<close>
  and named \<open>String.fromCharCode(65 + n)\<close>, \<open>n\<close> being the number of \<open>'S'\<close> and \<open>'+'\<close>
  symbols strictly before \<open>j\<close>. Only \<open>'S'\<close> and \<open>'A'\<close> create a cell: \<open>'+'\<close> takes a
  letter and creates nothing, any other symbol takes no letter.
\<close>

theorem seat_letters:
  "map (seatView (grid (generateAircraft seatLayout))) (seats (generateAircraft seatLayout)) =
     seatsOfRows 1 (expandRows seatLayout) \<and>
   length (grid (generateAircraft seatLayout)) =
     Suc (length (filter (\<lambda>s. s = 83 \<or> s = 65) (concat (expandRows seatLayout))))"
proof -
  obtain ac' pa' x' r' where l: "specLoop seatLayout (newAircraft (newCell 0 0), 0, 0, 1) = (ac', pa', x', r')"
    by (cases "specLoop seatLayout (newAircraft (newCell 0 0), 0, 0, 1)") auto
  have i: "seatsInv (newAircraft (newCell 0 0)) 0"
    by (simp add: seatsInv_def newAircraft_def newCell_def)
  have "length (grid ac') = Suc (length (filter (\<lambda>s. s = 83 \<or> s = 65) (concat (expandRows seatLayout))))"
    using length_grid_specLoop[of seatLayout "newAircraft (newCell 0 0)" 0 0 1] l
    by (simp add: newAircraft_def)
  with seatView_specLoop[OF i _ l] show ?thesis
    using l by (simp add: generateAircraft_def newAircraft_def)
qed

section \<open>An invariant rule for the layout compiler, and two more invariants\<close>


lemma layoutLoop_rule:
  assumes start: "Q j pat pc k pa ac"
    and seat: "\<And>j pat pc k pa ac. Q j (83 # pat) pc k pa ac \<Longrightarrow>
                 Q (Suc j) pat (Some (length (grid ac))) (Suc k) pa (seatBranch x r j pc k ac)"
    and aisle: "\<And>j pat pc k pa ac. Q j (65 # pat) pc k pa ac \<Longrightarrow>
                 Q (Suc j) pat (Some (length (grid ac))) k (length (grid ac)) (aisleBranch x j pc pa ac)"
    and plus: "\<And>j pat pc k pa ac. Q j (43 # pat) pc k pa ac \<Longrightarrow> Q (Suc j) pat pc (Suc k) pa ac"
    and skip: "\<And>j s pat pc k pa ac. s \<noteq> 83 \<Longrightarrow> s \<noteq> 65 \<Longrightarrow> s \<noteq> 43 \<Longrightarrow>
                 Q j (s # pat) pc k pa ac \<Longrightarrow> Q (Suc j) pat pc k pa ac"
  shows "\<exists>j' pc' k'. Q j' [] pc' k' (snd (layoutLoop x r pat j pc k (ac, pa))) (fst (layoutLoop x r pat j pc k (ac, pa)))"
  using start
proof (induction pat arbitrary: j pc k ac pa)
  case Nil
  then show ?case by auto
next
  case (Cons s pat)
  consider "s = 83" | "s = 65" | "s = 43" | "s \<noteq> 83" "s \<noteq> 65" "s \<noteq> 43" by blast
  then show ?case
  proof cases
    case 1
    from Cons.IH[OF seat[OF Cons.prems[unfolded 1]]] 1 show ?thesis by simp
  next
    case 2
    from Cons.IH[OF aisle[OF Cons.prems[unfolded 2]]] 2 show ?thesis by simp
  next
    case 3
    from Cons.IH[OF plus[OF Cons.prems[unfolded 3]]] 3 show ?thesis by simp
  next
    case 4
    from Cons.IH[OF skip[OF 4 Cons.prems]] 4 show ?thesis by simp
  qed
qed

lemma generateAircraft_rule:
  assumes init: "R 0 1 0 (newAircraft (newCell 0 0))"
    and start: "\<And>x r pa ac sp. R x r pa ac \<Longrightarrow> sp \<in> set seatLayout \<Longrightarrow>
                  Q (x + CELLSIZE) r 0 (layout sp) None 0 pa ac"
    and seat: "\<And>x r j pat pc k pa ac. Q x r j (83 # pat) pc k pa ac \<Longrightarrow>
                 Q x r (Suc j) pat (Some (length (grid ac))) (Suc k) pa (seatBranch x r j pc k ac)"
    and aisle: "\<And>x r j pat pc k pa ac. Q x r j (65 # pat) pc k pa ac \<Longrightarrow>
                 Q x r (Suc j) pat (Some (length (grid ac))) k (length (grid ac)) (aisleBranch x j pc pa ac)"
    and plus: "\<And>x r j pat pc k pa ac. Q x r j (43 # pat) pc k pa ac \<Longrightarrow> Q x r (Suc j) pat pc (Suc k) pa ac"
    and skip: "\<And>x r j s pat pc k pa ac. s \<noteq> 83 \<Longrightarrow> s \<noteq> 65 \<Longrightarrow> s \<noteq> 43 \<Longrightarrow>
                 Q x r j (s # pat) pc k pa ac \<Longrightarrow> Q x r (Suc j) pat pc k pa ac"
    and finish: "\<And>x r j pc k pa ac. Q x r j [] pc k pa ac \<Longrightarrow> R x (r + 1) pa ac"
  shows "\<exists>x r pa. R x r pa (generateAircraft seatLayout)"
proof -
  have row: "\<exists>pa'. R (x + CELLSIZE) (r + 1) pa' (fst (layoutLoop (x + CELLSIZE) r (layout sp) 0 None 0 (ac, pa))) \<and>
                    pa' = snd (layoutLoop (x + CELLSIZE) r (layout sp) 0 None 0 (ac, pa))"
    if "R x r pa ac" "sp \<in> set seatLayout" for x r pa ac sp
  proof -
    have "\<exists>j' pc' k'. Q (x + CELLSIZE) r j' [] pc' k' (snd (layoutLoop (x + CELLSIZE) r (layout sp) 0 None 0 (ac, pa)))
         (fst (layoutLoop (x + CELLSIZE) r (layout sp) 0 None 0 (ac, pa)))"
    proof (rule layoutLoop_rule[where Q = "Q (x + CELLSIZE) r"])
      show "Q (x + CELLSIZE) r 0 (layout sp) None 0 pa ac" by (rule start[OF that])
    qed (blast intro: seat aisle plus skip)+
    then obtain j' pc' k' where "Q (x + CELLSIZE) r j' [] pc' k' (snd (layoutLoop (x + CELLSIZE) r (layout sp) 0 None 0 (ac, pa)))
         (fst (layoutLoop (x + CELLSIZE) r (layout sp) 0 None 0 (ac, pa)))" by blast
    from finish[OF this] show ?thesis by simp
  qed
  have rep: "\<exists>x' r' pa' ac'. repeatLoop n (layout sp) (ac, pa, x, r) = (ac', pa', x', r') \<and> R x' r' pa' ac'"
    if "R x r pa ac" "sp \<in> set seatLayout" for n x r pa ac sp
    using that(1)
  proof (induction n arbitrary: x r pa ac)
    case 0
    then show ?case by simp
  next
    case (Suc n)
    obtain ac1 pa1 where l: "layoutLoop (x + CELLSIZE) r (layout sp) 0 None 0 (ac, pa) = (ac1, pa1)"
      by (cases "layoutLoop (x + CELLSIZE) r (layout sp) 0 None 0 (ac, pa)")
    from row[OF Suc.prems that(2)] l have "R (x + CELLSIZE) (r + 1) pa1 ac1" by simp
    from Suc.IH[OF this] show ?case using l by (simp add: Let_def)
  qed
  have spec: "\<exists>x' r' pa' ac'. specLoop specs (ac, pa, x, r) = (ac', pa', x', r') \<and> R x' r' pa' ac'"
    if "R x r pa ac" "set specs \<subseteq> set seatLayout" for specs x r pa ac
    using that
  proof (induction specs arbitrary: x r pa ac)
    case Nil
    then show ?case by simp
  next
    case (Cons sp specs)
    then have "sp \<in> set seatLayout" by simp
    from rep[OF Cons.prems(1) this, of "nat (repeat sp)"]
    obtain x1 r1 pa1 ac1 where l: "repeatLoop (nat (repeat sp)) (layout sp) (ac, pa, x, r) = (ac1, pa1, x1, r1)"
      and R1: "R x1 r1 pa1 ac1" by blast
    from Cons.prems(2) have "set specs \<subseteq> set seatLayout" by simp
    from Cons.IH[OF R1 this] show ?case using l by simp
  qed
  from spec[OF init subset_refl]
  obtain x' r' pa' ac' where l: "specLoop seatLayout (newAircraft (newCell 0 0), 0, 0, 1) = (ac', pa', x', r')"
    and R': "R x' r' pa' ac'" by blast
  from l have "generateAircraft seatLayout = ac'" by (simp add: generateAircraft_def)
  with R' show ?thesis by blast
qed


lemma aisleInv_seat:
  assumes "aisleInv x (83 # pat) (grid ac)"
  shows "aisleInv x pat (grid (seatBranch x r j pc k ac))"
proof -
  let ?g = "grid ac" and ?g' = "grid (seatBranch x r j pc k ac)"
  from assms have sa: "\<And>i k. i < length ?g \<Longrightarrow> k < length ?g \<Longrightarrow> row (?g ! i) = None \<Longrightarrow> row (?g ! k) = None \<Longrightarrow> xpos (?g ! i) = xpos (?g ! k) \<Longrightarrow> i = k"
    and le: "\<And>i. i < length ?g \<Longrightarrow> xpos (?g ! i) \<le> x"
    and cnt: "length (filter (\<lambda>s. s = 65) pat) \<le> 1"
    and ex: "(\<exists>i<length ?g. row (?g ! i) = None \<and> xpos (?g ! i) = x) \<longrightarrow> 65 \<notin> set pat"
    unfolding aisleInv_def singleAisle_def by auto
  have len: "length ?g' = Suc (length ?g)" by (simp add: grid_seatBranch)
  have xs: "\<And>i. i < length ?g \<Longrightarrow> xpos (?g' ! i) = xpos (?g ! i)" by (simp add: nth_old_seatBranch)
  have rs: "\<And>i. i < length ?g \<Longrightarrow> row (?g' ! i) = row (?g ! i)" by (simp add: nth_old_seatBranch)
  have xn: "xpos (?g' ! length ?g) = x" by (simp add: nth_new_seatBranch newSeat_def newCell_def)
  have rn: "row (?g' ! length ?g) \<noteq> None" by (simp add: nth_new_seatBranch newSeat_def newCell_def)
  have 1: "singleAisle ?g'"
    unfolding singleAisle_def len
  proof (intro allI impI)
    fix i k assume "i < Suc (length ?g)" "k < Suc (length ?g)" "row (?g' ! i) = None" "row (?g' ! k) = None" "xpos (?g' ! i) = xpos (?g' ! k)"
    then show "i = k" using rn sa[of i k] xs rs by (auto simp: less_Suc_eq)
  qed
  have 2: "\<forall>i<length ?g'. xpos (?g' ! i) \<le> x" using le xs xn by (auto simp: len less_Suc_eq)
  have 3: "(\<exists>i<length ?g'. row (?g' ! i) = None \<and> xpos (?g' ! i) = x) \<longrightarrow> 65 \<notin> set pat"
    using ex rn xs rs by (auto simp: len less_Suc_eq)
  show ?thesis unfolding aisleInv_def by (intro conjI 1 2 cnt 3)
qed

lemma aisleInv_aisle:
  assumes "aisleInv x (65 # pat) (grid ac)"
  shows "aisleInv x pat (grid (aisleBranch x j pc pa ac))"
proof -
  let ?g = "grid ac" and ?g' = "grid (aisleBranch x j pc pa ac)"
  from assms have sa: "\<And>i k. i < length ?g \<Longrightarrow> k < length ?g \<Longrightarrow> row (?g ! i) = None \<Longrightarrow> row (?g ! k) = None \<Longrightarrow> xpos (?g ! i) = xpos (?g ! k) \<Longrightarrow> i = k"
    and le: "\<And>i. i < length ?g \<Longrightarrow> xpos (?g ! i) \<le> x"
    and cnt: "length (filter (\<lambda>s. s = 65) pat) = 0"
    and ex: "\<And>i. i < length ?g \<Longrightarrow> row (?g ! i) = None \<Longrightarrow> xpos (?g ! i) \<noteq> x"
    unfolding aisleInv_def singleAisle_def by auto
  have len: "length ?g' = Suc (length ?g)" by (simp add: grid_aisleBranch)
  have xs: "\<And>i. i < length ?g \<Longrightarrow> xpos (?g' ! i) = xpos (?g ! i)" by (simp add: nth_old_aisleBranch Let_def)
  have rs: "\<And>i. i < length ?g \<Longrightarrow> row (?g' ! i) = row (?g ! i)" by (simp add: nth_old_aisleBranch Let_def)
  have xn: "xpos (?g' ! length ?g) = x" by (simp add: nth_new_aisleBranch newCell_def)
  have 1: "singleAisle ?g'"
    unfolding singleAisle_def len
  proof (intro allI impI)
    fix i k assume "i < Suc (length ?g)" "k < Suc (length ?g)" "row (?g' ! i) = None" "row (?g' ! k) = None" "xpos (?g' ! i) = xpos (?g' ! k)"
    then show "i = k" using sa[of i k] ex[of i] ex[of k] xs rs xn by (auto simp: less_Suc_eq)
  qed
  have 2: "\<forall>i<length ?g'. xpos (?g' ! i) \<le> x" using le xs xn by (auto simp: len less_Suc_eq)
  have 3: "length (filter (\<lambda>s. s = 65) pat) \<le> 1" using cnt by simp
  have 4: "(\<exists>i<length ?g'. row (?g' ! i) = None \<and> xpos (?g' ! i) = x) \<longrightarrow> 65 \<notin> set pat"
    using cnt by (auto simp: filter_empty_conv)
  show ?thesis unfolding aisleInv_def by (intro conjI 1 2 3 4)
qed

lemma aisleInv_skip: "s \<noteq> 65 \<Longrightarrow> aisleInv x (s # pat) g \<Longrightarrow> aisleInv x pat g"
  unfolding aisleInv_def by auto

lemma singleAisle_generateAircraft:
  assumes "\<forall>sp\<in>set seatLayout. length (filter (\<lambda>s. s = 65) (layout sp)) \<le> 1"
  shows "singleAisle (grid (generateAircraft seatLayout))"
proof -
  have "\<exists>x (r::nat) (pa::nat). singleAisle (grid (generateAircraft seatLayout)) \<and>
          (\<forall>i<length (grid (generateAircraft seatLayout)). xpos (grid (generateAircraft seatLayout) ! i) \<le> x)"
  proof (rule generateAircraft_rule[where Q = "\<lambda>x r j pat pc k pa ac. aisleInv x pat (grid ac)"
        and R = "\<lambda>x r pa ac. singleAisle (grid ac) \<and> (\<forall>i<length (grid ac). xpos (grid ac ! i) \<le> x)"])
    show "singleAisle (grid (newAircraft (newCell 0 0))) \<and> (\<forall>i<length (grid (newAircraft (newCell 0 0))). xpos (grid (newAircraft (newCell 0 0)) ! i) \<le> 0)"
      by (simp add: singleAisle_def newAircraft_def newCell_def)
  next
    fix x r pa ac sp
    assume R: "singleAisle (grid ac) \<and> (\<forall>i<length (grid ac). xpos (grid ac ! i) \<le> x)" and sp: "sp \<in> set seatLayout"
    then have "\<forall>i<length (grid ac). xpos (grid ac ! i) \<noteq> x + CELLSIZE" by (auto simp: CELLSIZE_def)
    moreover have "\<forall>i<length (grid ac). xpos (grid ac ! i) \<le> x + CELLSIZE" using R by (auto intro: trans_le_add1)
    ultimately show "aisleInv (x + CELLSIZE) (layout sp) (grid ac)"
      using R sp assms unfolding aisleInv_def by blast
  next
    fix x r j pc k pa ac
    assume "aisleInv x [] (grid ac)"
    then show "singleAisle (grid ac) \<and> (\<forall>i<length (grid ac). xpos (grid ac ! i) \<le> x)"
      unfolding aisleInv_def by blast
  qed (erule aisleInv_seat aisleInv_aisle | (erule aisleInv_skip[rotated], simp))+
  then show ?thesis by blast
qed


lemma unat_fromCharCode: "n < 65536 \<Longrightarrow> unat (fromCharCode n) = n"
  by (simp add: fromCharCode_def unat_of_nat)

lemma colInv_seat:
  assumes "colInv x k (83 # pat) (grid ac)"
  shows "colInv x (Suc k) pat (grid (seatBranch x r j pc k ac))"
proof -
  let ?g = "grid ac" and ?g' = "grid (seatBranch x r j pc k ac)"
  have co: "\<And>i m a b. i < length ?g \<Longrightarrow> m < length ?g \<Longrightarrow> i < m \<Longrightarrow> xpos (?g ! i) = xpos (?g ! m) \<Longrightarrow> col (?g ! i) = Some a \<Longrightarrow> col (?g ! m) = Some b \<Longrightarrow> a < b"
    using assms unfolding colInv_def colOrder_def by blast
  have le: "\<And>i. i < length ?g \<Longrightarrow> xpos (?g ! i) \<le> x"
    using assms unfolding colInv_def by blast
  have bd: "\<And>i a. i < length ?g \<Longrightarrow> xpos (?g ! i) = x \<Longrightarrow> col (?g ! i) = Some a \<Longrightarrow> unat a < 65 + k"
    using assms unfolding colInv_def by blast
  have cnt: "65 + Suc k + length (filter (\<lambda>s. s = 83 \<or> s = 43) pat) \<le> 65536"
    using assms unfolding colInv_def by simp
  have len: "length ?g' = Suc (length ?g)" by (simp add: grid_seatBranch)
  have xs: "\<And>i. i < length ?g \<Longrightarrow> xpos (?g' ! i) = xpos (?g ! i)" by (simp add: nth_old_seatBranch)
  have cs: "\<And>i. i < length ?g \<Longrightarrow> col (?g' ! i) = col (?g ! i)" by (simp add: nth_old_seatBranch)
  have xn: "xpos (?g' ! length ?g) = x" by (simp add: nth_new_seatBranch newSeat_def newCell_def)
  have cn: "col (?g' ! length ?g) = Some (fromCharCode (65 + k))" by (simp add: nth_new_seatBranch newSeat_def newCell_def)
  have un: "unat (fromCharCode (65 + k)) = 65 + k" using cnt by (intro unat_fromCharCode) simp
  have 1: "colOrder ?g'"
    unfolding colOrder_def len
  proof (intro allI impI)
    fix i m a b
    assume im: "i < Suc (length ?g)" "m < Suc (length ?g)" "i < m" and x: "xpos (?g' ! i) = xpos (?g' ! m)"
      and a: "col (?g' ! i) = Some a" and b: "col (?g' ! m) = Some b"
    from im have i: "i < length ?g" by simp
    show "a < b"
    proof (cases "m < length ?g")
      case True
      then show ?thesis using co[OF i True im(3)] x a b xs cs i by simp
    next
      case False
      then have m: "m = length ?g" using im(2) by simp
      have "unat a < 65 + k" using bd[OF i, of a] x a xs[OF i] cs[OF i] xn m by simp
      moreover have "b = fromCharCode (65 + k)" using b cn m by simp
      ultimately show ?thesis using un by (simp add: word_less_nat_alt)
    qed
  qed
  have 2: "\<forall>i<length ?g'. xpos (?g' ! i) \<le> x" using le xs xn by (auto simp: len less_Suc_eq)
  have 3: "\<forall>i<length ?g'. xpos (?g' ! i) = x \<longrightarrow> (\<forall>a. col (?g' ! i) = Some a \<longrightarrow> unat a < 65 + Suc k)"
  proof (intro allI impI)
    fix i a assume i: "i < length ?g'" and x: "xpos (?g' ! i) = x" and a: "col (?g' ! i) = Some a"
    show "unat a < 65 + Suc k"
    proof (cases "i < length ?g")
      case True
      then show ?thesis using bd[OF True, of a] x a xs cs by simp
    next
      case False
      then have "i = length ?g" using i len by simp
      then show ?thesis using a cn un by simp
    qed
  qed
  show ?thesis unfolding colInv_def by (intro conjI 1 2 3 cnt)
qed

lemma colInv_aisle:
  assumes "colInv x k (65 # pat) (grid ac)"
  shows "colInv x k pat (grid (aisleBranch x j pc pa ac))"
proof -
  let ?g = "grid ac" and ?g' = "grid (aisleBranch x j pc pa ac)"
  have co: "\<And>i m a b. i < length ?g \<Longrightarrow> m < length ?g \<Longrightarrow> i < m \<Longrightarrow> xpos (?g ! i) = xpos (?g ! m) \<Longrightarrow> col (?g ! i) = Some a \<Longrightarrow> col (?g ! m) = Some b \<Longrightarrow> a < b"
    using assms unfolding colInv_def colOrder_def by blast
  have le: "\<And>i. i < length ?g \<Longrightarrow> xpos (?g ! i) \<le> x"
    using assms unfolding colInv_def by blast
  have bd: "\<And>i a. i < length ?g \<Longrightarrow> xpos (?g ! i) = x \<Longrightarrow> col (?g ! i) = Some a \<Longrightarrow> unat a < 65 + k"
    using assms unfolding colInv_def by blast
  have cnt: "65 + k + length (filter (\<lambda>s. s = 83 \<or> s = 43) pat) \<le> 65536"
    using assms unfolding colInv_def by simp
  have len: "length ?g' = Suc (length ?g)" by (simp add: grid_aisleBranch)
  have xs: "\<And>i. i < length ?g \<Longrightarrow> xpos (?g' ! i) = xpos (?g ! i)" by (simp add: nth_old_aisleBranch Let_def)
  have cs: "\<And>i. i < length ?g \<Longrightarrow> col (?g' ! i) = col (?g ! i)" by (simp add: nth_old_aisleBranch Let_def)
  have xn: "xpos (?g' ! length ?g) = x" by (simp add: nth_new_aisleBranch newCell_def)
  have cn: "col (?g' ! length ?g) = None" by (simp add: nth_new_aisleBranch newCell_def)
  have 1: "colOrder ?g'"
    unfolding colOrder_def len
  proof (intro allI impI)
    fix i m a b
    assume im: "i < Suc (length ?g)" "m < Suc (length ?g)" "i < m" and x: "xpos (?g' ! i) = xpos (?g' ! m)"
      and a: "col (?g' ! i) = Some a" and b: "col (?g' ! m) = Some b"
    from im have i: "i < length ?g" by simp
    have m: "m < length ?g" using im(2) b cn by (cases "m = length ?g") auto
    show "a < b" using co[OF i m im(3)] x a b xs cs i m by simp
  qed
  have 2: "\<forall>i<length ?g'. xpos (?g' ! i) \<le> x" using le xs xn by (auto simp: len less_Suc_eq)
  have 3: "\<forall>i<length ?g'. xpos (?g' ! i) = x \<longrightarrow> (\<forall>a. col (?g' ! i) = Some a \<longrightarrow> unat a < 65 + k)"
  proof (intro allI impI)
    fix i a assume i: "i < length ?g'" and x: "xpos (?g' ! i) = x" and a: "col (?g' ! i) = Some a"
    have "i < length ?g" using i len a cn by (cases "i = length ?g") auto
    then show "unat a < 65 + k" using bd[of i a] x a xs cs by simp
  qed
  show ?thesis unfolding colInv_def by (intro conjI 1 2 3 cnt)
qed

lemma colInv_plus: "colInv x k (43 # pat) g \<Longrightarrow> colInv x (Suc k) pat g"
  unfolding colInv_def by (auto intro: less_SucI)

lemma colInv_skip: "s \<noteq> 83 \<Longrightarrow> s \<noteq> 43 \<Longrightarrow> colInv x k (s # pat) g \<Longrightarrow> colInv x k pat g"
  unfolding colInv_def by auto

lemma colOrder_generateAircraft:
  assumes "\<forall>sp\<in>set seatLayout. length (filter (\<lambda>s. s = 83 \<or> s = 43) (layout sp)) \<le> 65471"
  shows "colOrder (grid (generateAircraft seatLayout))"
proof -
  have "\<exists>x (r::nat) (pa::nat). colOrder (grid (generateAircraft seatLayout)) \<and>
          (\<forall>i<length (grid (generateAircraft seatLayout)). xpos (grid (generateAircraft seatLayout) ! i) \<le> x)"
  proof (rule generateAircraft_rule[where Q = "\<lambda>x r j pat pc k pa ac. colInv x k pat (grid ac)"
        and R = "\<lambda>x r pa ac. colOrder (grid ac) \<and> (\<forall>i<length (grid ac). xpos (grid ac ! i) \<le> x)"])
    show "colOrder (grid (newAircraft (newCell 0 0))) \<and> (\<forall>i<length (grid (newAircraft (newCell 0 0))). xpos (grid (newAircraft (newCell 0 0)) ! i) \<le> 0)"
      by (simp add: colOrder_def newAircraft_def newCell_def)
  next
    fix x r pa ac sp
    assume R: "colOrder (grid ac) \<and> (\<forall>i<length (grid ac). xpos (grid ac ! i) \<le> x)" and sp: "sp \<in> set seatLayout"
    then have "\<forall>i<length (grid ac). xpos (grid ac ! i) \<noteq> x + CELLSIZE" by (auto simp: CELLSIZE_def)
    moreover have "\<forall>i<length (grid ac). xpos (grid ac ! i) \<le> x + CELLSIZE" using R by (auto intro: trans_le_add1)
    moreover have "65 + 0 + length (filter (\<lambda>s. s = 83 \<or> s = 43) (layout sp)) \<le> 65536" using sp assms by fastforce
    ultimately show "colInv (x + CELLSIZE) 0 (layout sp) (grid ac)"
      using R unfolding colInv_def by blast
  next
    fix x r j pc k pa ac
    assume "colInv x k [] (grid ac)"
    then show "colOrder (grid ac) \<and> (\<forall>i<length (grid ac). xpos (grid ac ! i) \<le> x)"
      unfolding colInv_def by blast
  next
    fix x r j s pat pc k pa ac
    assume "s \<noteq> (83::jschar)" "s \<noteq> 65" "s \<noteq> 43" "colInv x k (s # pat) (grid ac)"
    then show "colInv x k pat (grid ac)" by (blast intro: colInv_skip)
  qed (erule colInv_seat colInv_aisle colInv_plus)+
  then show ?thesis by blast
qed

section \<open>Boarding orders keep to the passengers they are given\<close>


lemma mset_swap_update:
  "i < length xs \<Longrightarrow> j < length xs \<Longrightarrow> mset (xs[i := xs ! j, j := xs ! i]) = mset xs"
  by (simp add: mset_swap)

lemma shuffleLoop_perm:
  "i < length xs \<or> xs = [] \<and> i = 0 \<Longrightarrow> mset (shuffleLoop rnd i xs) = mset xs \<and> length (shuffleLoop rnd i xs) = length xs"
proof (induction i arbitrary: xs)
  case 0
  then show ?case by simp
next
  case (Suc i)
  let ?j = "rnd (Suc i) mod (Suc i + 1)"
  have j: "?j < length xs" using Suc.prems by (auto intro: less_le_trans[OF mod_less_divisor])
  let ?ys = "xs[Suc i := xs ! ?j, ?j := xs ! Suc i]"
  have m: "mset ?ys = mset xs" using Suc.prems j by (intro mset_swap_update) auto
  have "i < length ?ys" using Suc.prems by auto
  from Suc.IH[of ?ys] this m show ?case by (simp add: Let_def)
qed

lemma shuffleArray_perm: "mset (shuffleArray rnd xs) = mset xs"
  using shuffleLoop_perm[of "length xs - 1" xs rnd] by (cases xs) (auto simp: shuffleArray_def)

lemma seatMapLoop_ran:
  "ran (seatMapLoop key ps m) \<subseteq> ran m \<union> set ps"
proof (induction ps arbitrary: m)
  case Nil
  then show ?case by simp
next
  case (Cons p ps)
  have "ran (case key p of None \<Rightarrow> m | Some k \<Rightarrow> m(k \<mapsto> p)) \<subseteq> ran m \<union> {p}"
    by (auto simp: ran_def split: option.splits if_splits)
  with Cons.IH[of "case key p of None \<Rightarrow> m | Some k \<Rightarrow> m(k \<mapsto> p)"] show ?case by auto
qed

lemma pushFound_set: "set (pushFound m k xs) \<subseteq> set xs \<union> ran m"
  by (auto simp: pushFound_def ran_def split: option.splits)

lemma rowLoop_set: "set (rowLoop m rc lc both r xs) \<subseteq> set xs \<union> ran m"
proof (induction m rc lc both r xs rule: rowLoop.induct)
  case (1 m rc lc both r xs)
  show ?case
  proof (cases "r > 0")
    case False
    then show ?thesis by (simp add: rowLoop.simps)
  next
    case True
    let ?s1 = "pushFound m (decimal r @ [rc]) xs"
    let ?s2 = "if both then pushFound m (decimal r @ [lc]) ?s1 else ?s1"
    have "set ?s2 \<subseteq> set xs \<union> ran m" using pushFound_set[of m _ xs] pushFound_set[of m _ ?s1] by auto
    moreover have "set (rowLoop m rc lc both (r - 2) ?s2) \<subseteq> set ?s2 \<union> ran m"
      using 1[OF True refl refl] by simp
    ultimately show ?thesis using True by (subst rowLoop.simps) (auto simp: Let_def)
  qed
qed

lemma colLoop_set: "set (colLoop m n rc lc xs) \<subseteq> set xs \<union> ran m"
proof (induction m n rc lc xs rule: colLoop.induct)
  case (1 m n rc lc xs)
  show ?case
  proof (cases "lc \<ge> rc")
    case False
    then show ?thesis by (simp add: colLoop.simps)
  next
    case True
    let ?rn = "fromCharCode (nat (65 + rc))" and ?ln = "fromCharCode (nat (65 + lc))"
    let ?s1 = "rowLoop m ?rn ?ln (lc \<noteq> rc) n xs"
    let ?s2 = "rowLoop m ?rn ?ln (lc \<noteq> rc) (n - 1) ?s1"
    have "set ?s2 \<subseteq> set xs \<union> ran m" using rowLoop_set[of m ?rn ?ln _ n xs] rowLoop_set[of m ?rn ?ln _ "n - 1" ?s1] by blast
    moreover have "set (colLoop m n (rc + 1) (lc - 1) ?s2) \<subseteq> set ?s2 \<union> ran m"
      using 1[OF True refl refl refl refl] by simp
    ultimately show ?thesis using True by (subst colLoop.simps) (auto simp: Let_def)
  qed
qed

lemma arrangeSteffen_subset: "set (arrangeSteffen store ps ac) \<subseteq> set ps"
  using colLoop_set[of "seatMapLoop (targetKey store ac) ps Map.empty" "rowCount ac" 0 "int (colCount ac) - 1" "[]"]
    seatMapLoop_ran[of "targetKey store ac" ps Map.empty]
  by (auto simp: arrangeSteffen_def)

lemma arrange_subset: "set (arrange method rnd store ps ac) \<subseteq> set ps"
  using arrangeSteffen_subset[of store ps ac] mset_eq_setD[OF shuffleArray_perm[of rnd ps]]
  by (auto simp: arrange_def arrangeRandom_def arrangeBackFront_def arrangeFrontBack_def)

section \<open>What a step of the simulation does\<close>

lemma sameShape_refl [simp]: "sameShape g g"
  by (simp add: sameShape_def)

lemma sameShape_length: "sameShape g0 g \<Longrightarrow> length g = length g0"
  unfolding sameShape_def by (rule map_eq_imp_length_eq)

lemma sameShape_nth: "sameShape g0 g \<Longrightarrow> i < length g0 \<Longrightarrow> shapeOf (g ! i) = shapeOf (g0 ! i)"
proof -
  assume a: "sameShape g0 g" and i: "i < length g0"
  then have l: "i < length g" by (simp add: sameShape_length)
  from a have "map shapeOf g ! i = map shapeOf g0 ! i" by (simp add: sameShape_def)
  then show ?thesis using i l by simp
qed

lemma shapeOf_fields:
  "shapeOf a = shapeOf b \<Longrightarrow>
     xpos a = xpos b \<and> ypos a = ypos b \<and> up a = up b \<and> down a = down b \<and> left a = left b \<and>
     right a = right b \<and> row a = row b \<and> col a = col b"
  unfolding shapeOf_def by (cases a, cases b) simp

lemma sameShape_fields:
  assumes "sameShape g0 g" and "i < length g0"
  shows "xpos (g ! i) = xpos (g0 ! i)" "up (g ! i) = up (g0 ! i)" "down (g ! i) = down (g0 ! i)"
    "left (g ! i) = left (g0 ! i)" "right (g ! i) = right (g0 ! i)" "row (g ! i) = row (g0 ! i)"
    "col (g ! i) = col (g0 ! i)"
  using shapeOf_fields[OF sameShape_nth[OF assms]] by simp_all

lemma sameShape_update:
  assumes "sameShape g0 g"
  shows "sameShape g0 (g[c := (g ! c)\<lparr>contents := w\<rparr>])"
proof -
  have "map shapeOf (g[c := (g ! c)\<lparr>contents := w\<rparr>]) = (map shapeOf g)[c := shapeOf (g ! c)]"
    by (simp add: map_update shapeOf_def)
  also have "\<dots> = map shapeOf g"
    by (cases "c < length g") (simp_all add: list_update_same_conv list_update_beyond)
  finally show ?thesis using assms by (simp add: sameShape_def)
qed

text \<open>projections of the primitive state updates\<close>

lemma updContents_simps [simp]:
  "pax (updContents c f s) = pax s"
  "lugCalls (updContents c f s) = lugCalls s"
  "startingCell (aircraft (updContents c f s)) = startingCell (aircraft s)"
  "seats (aircraft (updContents c f s)) = seats (aircraft s)"
  "grid (aircraft (updContents c f s)) =
     (grid (aircraft s))[c := (grid (aircraft s) ! c)\<lparr>contents := f (contents (grid (aircraft s) ! c))\<rparr>]"
  by (simp_all add: updContents_def cellAt_def)

lemma updPassenger_simps [simp]:
  "pax (updPassenger p f s) = (pax s)[p := f (pax s ! p)]"
  "lugCalls (updPassenger p f s) = lugCalls s"
  "aircraft (updPassenger p f s) = aircraft s"
  by (simp_all add: updPassenger_def)

lemma queues_updContents [simp]:
  "activePax (updContents c f s) = activePax s" "pendingPax (updContents c f s) = pendingPax s"
  by (simp_all add: updContents_def)

lemma queues_updPassenger [simp]:
  "activePax (updPassenger p f s) = activePax s" "pendingPax (updPassenger p f s) = pendingPax s"
  by (simp_all add: updPassenger_def)

lemma cellAt_updPassenger [simp]: "cellAt (updPassenger p f s) c = cellAt s c"
  by (simp add: cellAt_def)

lemma move_Inr: "move p target s = Inr s' \<longleftrightarrow>
   (\<exists>c n. cell (pax s ! p) = Some c \<and> target = Some n \<and> s' = moved p c n s)"
  by (auto simp: move_def moved_def split: option.splits)

lemma moved_simps [simp]:
  "pax (moved p c n s) = (pax s)[p := (pax s ! p)\<lparr>cell := Some n\<rparr>]"
  "lugCalls (moved p c n s) = lugCalls s"
  "activePax (moved p c n s) = activePax s" "pendingPax (moved p c n s) = pendingPax s"
  "startingCell (aircraft (moved p c n s)) = startingCell (aircraft s)"
  "seats (aircraft (moved p c n s)) = seats (aircraft s)"
  by (simp_all add: moved_def)

lemma sameShape_moved: "sameShape g0 (grid (aircraft s)) \<Longrightarrow> sameShape g0 (grid (aircraft (moved p c n s)))"
  by (simp add: moved_def sameShape_update)

lemma contents_moved:
  assumes "i < length (grid (aircraft s))"
  shows "contents (grid (aircraft (moved p c n s)) ! i) =
     (if i = n then set_add p ((if i = c then set_delete p else id) (contents (grid (aircraft s) ! i)))
      else if i = c then set_delete p (contents (grid (aircraft s) ! i))
      else contents (grid (aircraft s) ! i))"
  using assms by (simp add: moved_def cellAt_def nth_list_update)

lemma paxStep_targetSeat: "paxStep g a a' \<Longrightarrow> targetSeat a' = targetSeat a"
  by (induction rule: paxStep.induct) simp_all

lemma frame_refl [simp]: "frame s s"
  by (simp add: frame_def)

lemma frame_moved [simp]: "frame s (moved p c n s)"
  by (simp add: frame_def sameShape_moved)

lemma frame_updPassenger [simp]: "frame s (updPassenger p f s)"
  by (simp add: frame_def)

lemma frame_startLoading [simp]: "frame s (startLoading lug p st s)"
  by (simp add: frame_def startLoading_def)

lemma pax_startLoading [simp]:
  "pax (startLoading lug p st s) = (pax s)[p := (pax s ! p)\<lparr>state := Some st, timeToTransition := lug (lugCalls s)\<rparr>]"
  by (simp add: startLoading_def)

lemma grid_startLoading [simp]: "grid (aircraft (startLoading lug p st s)) = grid (aircraft s)"
  by (simp add: startLoading_def)

lemma loadingMove_effect:
  assumes lm: "loadingMove p dir (updPassenger p (\<lambda>a. a\<lparr>timeToTransition := timeToTransition a - t\<rparr>) s) = Inr s'"
    and p: "p < length (pax s)"
  shows "(s' = updPassenger p (\<lambda>a. a\<lparr>timeToTransition := timeToTransition a - t\<rparr>) s) \<or>
         (\<exists>c n. cell (pax s ! p) = Some c \<and> dir (cellAt s c) = Some n \<and>
            pax s' = (pax s)[p := (pax s ! p)\<lparr>timeToTransition := timeToTransition (pax s ! p) - t, cell := Some n,
                         state := (if n = targetSeat (pax s ! p) then Some Seated else state (pax s ! p))\<rparr>] \<and>
            frame s s' \<and>
            (\<forall>i<length (grid (aircraft s)). contents (grid (aircraft s') ! i) =
                contents (grid (aircraft (moved p c n s)) ! i)))"
proof -
  let ?s1 = "updPassenger p (\<lambda>a. a\<lparr>timeToTransition := timeToTransition a - t\<rparr>) s"
  let ?a = "pax s ! p"
  have a1: "pax ?s1 ! p = ?a\<lparr>timeToTransition := timeToTransition ?a - t\<rparr>" using p by simp
  show ?thesis
  proof (cases "timeToTransition (pax ?s1 ! p) \<le> 0")
    case False
    then have "s' = ?s1" using lm by (simp add: loadingMove_def)
    then show ?thesis by simp
  next
    case True
    from lm True obtain c where c: "cell (pax ?s1 ! p) = Some c"
      by (auto simp: loadingMove_def simp del: updPassenger_simps split: option.splits)
    from lm True c obtain s2 where m: "move p (dir (cellAt ?s1 c)) ?s1 = Inr s2"
      by (auto simp: loadingMove_def simp del: updPassenger_simps split: sum.splits)
    from m c obtain n where n: "dir (cellAt ?s1 c) = Some n" and s2: "s2 = moved p c n ?s1"
      by (auto simp: move_Inr simp del: updPassenger_simps)
    have ca: "cell ?a = Some c" using c a1 by simp
    have p2: "pax s2 ! p = ?a\<lparr>timeToTransition := timeToTransition ?a - t, cell := Some n\<rparr>"
      using p by (simp add: s2)
    have s': "s' = (if n = targetSeat ?a then updPassenger p (\<lambda>a. a\<lparr>state := Some Seated\<rparr>) s2 else s2)"
      using lm True c m p2 by (auto simp: loadingMove_def simp del: updPassenger_simps split: if_splits)
    have paxs': "pax s' = (pax s)[p := ?a\<lparr>timeToTransition := timeToTransition ?a - t, cell := Some n,
                         state := (if n = targetSeat ?a then Some Seated else state ?a)\<rparr>]"
      using p by (simp add: s' s2)
    have g': "grid (aircraft s') = grid (aircraft (moved p c n s))"
      by (simp add: s' s2 moved_def cellAt_def)
    have fr: "frame s s'"
      unfolding frame_def g' by (simp add: s' s2 sameShape_moved)
    have "dir (cellAt s c) = Some n" using n by simp
    with ca paxs' fr g' show ?thesis by auto
  qed
qed

lemma contentsStep_same [simp]: "contentsStep g a p g i"
  by (simp add: contentsStep_def)

lemma length_set_delete: "length (set_delete p xs) \<le> length xs"
  by (simp add: set_delete_def)

lemma contents_moved_le:
  assumes "i < length (grid (aircraft s))" and "i \<noteq> n"
  shows "length (contents (grid (aircraft (moved p c n s)) ! i)) \<le> length (contents (grid (aircraft s) ! i))"
  using assms by (simp add: contents_moved length_set_delete)

lemma contents_moved_empty:
  assumes "n < length (grid (aircraft s))" and "contents (grid (aircraft s) ! n) = []"
  shows "contents (grid (aircraft (moved p c n s)) ! n) = [p]"
  using assms by (simp add: contents_moved set_add_def set_delete_def)

lemma Passenger_simulate_effect:
  assumes sim: "Passenger_simulate lug t p s = Inr s'" and p: "p < length (pax s)"
  shows "frame s s' \<and> (\<exists>a'. paxStep (grid (aircraft s)) (pax s ! p) a' \<and> pax s' = (pax s)[p := a']) \<and>
         (\<forall>i<length (grid (aircraft s)). contentsStep (grid (aircraft s)) (pax s ! p) p (grid (aircraft s')) i)"
proof -
  let ?a = "pax s ! p" and ?g = "grid (aircraft s)"
  have same: "(pax s)[p := ?a] = pax s" by simp
  show ?thesis
  proof (cases "state ?a")
    case None
    then have "s' = s" using sim by (simp add: Passenger_simulate_def)
    then show ?thesis using paxStep.idle[of ?g ?a] same by auto
  next
    case (Some st)
    show ?thesis
    proof (cases st)
      case Seated
      then have "s' = s" using sim Some by (simp add: Passenger_simulate_def)
      then show ?thesis using paxStep.idle[of ?g ?a] same by auto
    next
      case Searching
      with sim Some obtain c where c: "cell ?a = Some c"
        by (auto simp: Passenger_simulate_def split: option.splits)
      let ?t = "cellAt s (targetSeat ?a)"
      consider (u) "seatIsUp s (cellAt s c) ?t"
        | (d) "\<not> seatIsUp s (cellAt s c) ?t" "seatIsDown s (cellAt s c) ?t"
        | (r) "\<not> seatIsUp s (cellAt s c) ?t" "\<not> seatIsDown s (cellAt s c) ?t" by blast
      then show ?thesis
      proof cases
        case u
        then have s': "s' = startLoading lug p LoadingUp s"
          using sim Some Searching c by (simp add: Passenger_simulate_def)
        from u obtain w where "up (?g ! c) = Some w" "row (?g ! w) = row (?g ! targetSeat ?a)"
          "col_ge (col (?g ! w)) (col (?g ! targetSeat ?a))"
          by (auto simp: seatIsUp_def cellAt_def split: option.splits)
        from paxStep.startUp[of ?a c ?g w, OF _ c this] Some Searching
        have "paxStep ?g ?a (?a\<lparr>state := Some LoadingUp, timeToTransition := lug (lugCalls s)\<rparr>)" by simp
        then show ?thesis unfolding s' by (auto simp: )
      next
        case d
        then have s': "s' = startLoading lug p LoadingDown s"
          using sim Some Searching c by (simp add: Passenger_simulate_def)
        from d obtain w where "down (?g ! c) = Some w" "row (?g ! w) = row (?g ! targetSeat ?a)"
          "col_le (col (?g ! w)) (col (?g ! targetSeat ?a))"
          by (auto simp: seatIsDown_def cellAt_def split: option.splits)
        from paxStep.startDown[of ?a c ?g w, OF _ c this] Some Searching
        have "paxStep ?g ?a (?a\<lparr>state := Some LoadingDown, timeToTransition := lug (lugCalls s)\<rparr>)" by simp
        then show ?thesis unfolding s' by (auto simp: )
      next
        case r
        show ?thesis
        proof (cases "right (cellAt s c)")
          case None
          then have "s' = s" using sim Some Searching c r by (simp add: Passenger_simulate_def)
          then show ?thesis using paxStep.idle[of ?g ?a] same by auto
        next
          case (Some k)
          show ?thesis
          proof (cases "isEmpty (cellAt s k)")
            case False
            then have "s' = s" using sim \<open>state ?a = Some st\<close> Searching c r Some by (simp add: Passenger_simulate_def)
            then show ?thesis using paxStep.idle[of ?g ?a] same by auto
          next
            case True
            then have "move p (Some k) s = Inr s'"
              using sim \<open>state ?a = Some st\<close> Searching c r Some by (simp add: Passenger_simulate_def)
            then have s': "s' = moved p c k s" using c by (simp add: move_Inr)
            from paxStep.stepRight[of ?a c ?g k] \<open>state ?a = Some st\<close> Searching c Some
            have ps: "paxStep ?g ?a (?a\<lparr>cell := Some k\<rparr>)" by (simp add: cellAt_def)
            have "contentsStep ?g ?a p (grid (aircraft (moved p c k s))) i" if i: "i < length ?g" for i
            proof (cases "i = k")
              case False
              then show ?thesis using contents_moved_le[OF i False] by (simp add: contentsStep_def)
            next
              case ik: True
              have "contents (?g ! k) = []" using True by (simp add: isEmpty_def cellAt_def)
              from contents_moved_empty[OF _ this] i ik
              have "contents (grid (aircraft (moved p c k s)) ! i) = [p]" by simp
              then show ?thesis
                using c \<open>state ?a = Some st\<close> Searching Some ik by (auto simp: contentsStep_def cellAt_def)
            qed
            then show ?thesis using ps unfolding s' by auto
          qed
        qed
      qed
    next
      case LoadingUp
      then have lm: "loadingMove p up (updPassenger p (\<lambda>a. a\<lparr>timeToTransition := timeToTransition a - t\<rparr>) s) = Inr s'"
        using sim Some by (simp add: Passenger_simulate_def)
      from loadingMove_effect[OF lm p] show ?thesis
      proof (elim disjE exE conjE)
        assume "s' = updPassenger p (\<lambda>a. a\<lparr>timeToTransition := timeToTransition a - t\<rparr>) s"
        moreover have "paxStep ?g ?a (?a\<lparr>timeToTransition := timeToTransition ?a - t\<rparr>)"
          using Some LoadingUp by (intro paxStep.wait) simp
        ultimately show ?thesis by auto
      next
        fix c n
        assume c: "cell ?a = Some c" and n: "up (cellAt s c) = Some n"
          and px: "pax s' = (pax s)[p := ?a\<lparr>timeToTransition := timeToTransition ?a - t, cell := Some n,
                         state := (if n = targetSeat ?a then Some Seated else state ?a)\<rparr>]"
          and fr: "frame s s'"
          and ct: "\<forall>i<length ?g. contents (grid (aircraft s') ! i) = contents (grid (aircraft (moved p c n s)) ! i)"
        from paxStep.stepUp[of ?a c ?g n "timeToTransition ?a - t"] Some LoadingUp c n
        have ps: "paxStep ?g ?a (?a\<lparr>timeToTransition := timeToTransition ?a - t, cell := Some n,
                 state := (if n = targetSeat ?a then Some Seated else Some LoadingUp)\<rparr>)"
          by (simp add: cellAt_def)
        have "contentsStep ?g ?a p (grid (aircraft s')) i" if i: "i < length ?g" for i
        proof (cases "i = n")
          case False
          then show ?thesis using contents_moved_le[OF i False, of p c] ct i by (simp add: contentsStep_def)
        next
          case True
          then show ?thesis using c n Some LoadingUp by (auto simp: contentsStep_def cellAt_def)
        qed
        then show ?thesis using ps px fr Some LoadingUp by auto
      qed
    next
      case LoadingDown
      then have lm: "loadingMove p down (updPassenger p (\<lambda>a. a\<lparr>timeToTransition := timeToTransition a - t\<rparr>) s) = Inr s'"
        using sim Some by (simp add: Passenger_simulate_def)
      from loadingMove_effect[OF lm p] show ?thesis
      proof (elim disjE exE conjE)
        assume "s' = updPassenger p (\<lambda>a. a\<lparr>timeToTransition := timeToTransition a - t\<rparr>) s"
        moreover have "paxStep ?g ?a (?a\<lparr>timeToTransition := timeToTransition ?a - t\<rparr>)"
          using Some LoadingDown by (intro paxStep.wait) simp
        ultimately show ?thesis by auto
      next
        fix c n
        assume c: "cell ?a = Some c" and n: "down (cellAt s c) = Some n"
          and px: "pax s' = (pax s)[p := ?a\<lparr>timeToTransition := timeToTransition ?a - t, cell := Some n,
                         state := (if n = targetSeat ?a then Some Seated else state ?a)\<rparr>]"
          and fr: "frame s s'"
          and ct: "\<forall>i<length ?g. contents (grid (aircraft s') ! i) = contents (grid (aircraft (moved p c n s)) ! i)"
        from paxStep.stepDown[of ?a c ?g n "timeToTransition ?a - t"] Some LoadingDown c n
        have ps: "paxStep ?g ?a (?a\<lparr>timeToTransition := timeToTransition ?a - t, cell := Some n,
                 state := (if n = targetSeat ?a then Some Seated else Some LoadingDown)\<rparr>)"
          by (simp add: cellAt_def)
        have "contentsStep ?g ?a p (grid (aircraft s')) i" if i: "i < length ?g" for i
        proof (cases "i = n")
          case False
          then show ?thesis using contents_moved_le[OF i False, of p c] ct i by (simp add: contentsStep_def)
        next
          case True
          then show ?thesis using c n Some LoadingDown by (auto simp: contentsStep_def cellAt_def)
        qed
        then show ?thesis using ps px fr Some LoadingDown by auto
      qed
    qed
  qed
qed

lemma admit_effect:
  assumes "admit s = Inr s'" and "\<forall>p\<in>set (pendingPax s). p < length (pax s)"
  shows "s' = s \<or>
     (pendingPax s \<noteq> [] \<and> isEmpty (cellAt s (startingCell (aircraft s))) \<and>
      pax s' = (pax s)[last (pendingPax s) := (pax s ! last (pendingPax s))\<lparr>cell := Some (startingCell (aircraft s)), state := Some Searching\<rparr>] \<and>
      grid (aircraft s') = (grid (aircraft s))[startingCell (aircraft s) :=
          (grid (aircraft s) ! startingCell (aircraft s))\<lparr>contents := set_add (last (pendingPax s)) (contents (grid (aircraft s) ! startingCell (aircraft s)))\<rparr>] \<and>
      startingCell (aircraft s') = startingCell (aircraft s) \<and> seats (aircraft s') = seats (aircraft s) \<and>
      activePax s' = activePax s @ [last (pendingPax s)] \<and> pendingPax s' = butlast (pendingPax s))"
proof (cases "length (pendingPax s) > 0 \<and> isEmpty (cellAt s (startingCell (aircraft s)))")
  case False
  then have "s' = s" using assms(1) by (auto simp: admit_def)
  then show ?thesis by simp
next
  case True
  let ?p = "last (pendingPax s)"
  let ?s1 = "s\<lparr>pendingPax := butlast (pendingPax s)\<rparr>"
  from True have ne: "pendingPax s \<noteq> []" by auto
  then have p: "?p < length (pax s)" using assms(2) by simp
  have e: "isEmpty (cellAt ?s1 (startingCell (aircraft ?s1)))" using True by (simp add: cellAt_def)
  have s': "s' = (initializeAt ?p (startingCell (aircraft s)) Searching ?s1)\<lparr>activePax := activePax s @ [?p]\<rparr>"
    using assms(1) True e by (simp add: admit_def board_def Let_def initializeAt_def updPassenger_def updContents_def)
  show ?thesis
    using True ne p unfolding s' by (simp add: initializeAt_def updPassenger_def updContents_def cellAt_def)
qed

lemma gridOK_valid:
  assumes "gridOK g" and "c < length g"
  shows "up (g ! c) = Some n \<Longrightarrow> n < length g" "down (g ! c) = Some n \<Longrightarrow> n < length g"
    "right (g ! c) = Some n \<Longrightarrow> n < length g"
proof -
  have gup: "up (g ! c) = (if 0 < c \<and> xpos (g ! (c - 1)) = xpos (g ! c) then Some (c - 1) else None)"
    using assms unfolding gridOK_def by blast
  have gdown: "down (g ! c) = (if Suc c < length g \<and> xpos (g ! Suc c) = xpos (g ! c) then Some (Suc c) else None)"
    using assms unfolding gridOK_def by blast
  have gright: "\<And>k. right (g ! c) = Some k \<Longrightarrow> k < length g"
    using assms unfolding gridOK_def by blast
  show "up (g ! c) = Some n \<Longrightarrow> n < length g" using gup assms(2) by (auto split: if_splits)
  show "down (g ! c) = Some n \<Longrightarrow> n < length g" using gdown by (auto split: if_splits)
  show "right (g ! c) = Some n \<Longrightarrow> n < length g" using gright by blast
qed

lemma paxStep_transfer:
  assumes st: "paxStep g a a'" and sh: "sameShape g0 g" and ok: "gridOK g0" and wf: "wfPax g0 a"
  shows "paxStep g0 a a' \<and> wfPax g0 a'"
proof -
  note f = sameShape_fields[OF sh]
  from wf have t: "targetSeat a < length g0" and tr: "row (g0 ! targetSeat a) \<noteq> None"
    and cv: "\<And>c. cell a = Some c \<Longrightarrow> c < length g0"
    by (auto simp: wfPax_def)
  from st show ?thesis
  proof cases
    case idle
    then show ?thesis using wf paxStep.idle by simp
  next
    case (startUp c u v)
    have c: "c < length g0" using cv startUp by simp
    have u: "up (g0 ! c) = Some u" using startUp f(2)[OF c] by simp
    then have ul: "u < length g0" using gridOK_valid(1)[OF ok c] by simp
    have "paxStep g0 a (a\<lparr>state := Some LoadingUp, timeToTransition := v\<rparr>)"
      using startUp u f(6,7)[OF ul] f(6,7)[OF t] by (intro paxStep.startUp[of a c g0 u]) simp_all
    then show ?thesis using startUp wf by (simp add: wfPax_def)
  next
    case (startDown c d v)
    have c: "c < length g0" using cv startDown by simp
    have d: "down (g0 ! c) = Some d" using startDown f(3)[OF c] by simp
    then have dl: "d < length g0" using gridOK_valid(2)[OF ok c] by simp
    have "paxStep g0 a (a\<lparr>state := Some LoadingDown, timeToTransition := v\<rparr>)"
      using startDown d f(6,7)[OF dl] f(6,7)[OF t] by (intro paxStep.startDown[of a c g0 d]) simp_all
    then show ?thesis using startDown wf by (simp add: wfPax_def)
  next
    case (stepRight c r)
    have c: "c < length g0" using cv stepRight by simp
    have r: "right (g0 ! c) = Some r" using stepRight f(5)[OF c] by simp
    then have rl: "r < length g0" using gridOK_valid(3)[OF ok c] by simp
    have "paxStep g0 a (a\<lparr>cell := Some r\<rparr>)"
      using stepRight r by (intro paxStep.stepRight[of a c g0 r]) simp_all
    then show ?thesis using stepRight wf rl by (simp add: wfPax_def)
  next
    case (wait v)
    then have "paxStep g0 a (a\<lparr>timeToTransition := v\<rparr>)" by (intro paxStep.wait) simp
    then show ?thesis using wait wf by (simp add: wfPax_def)
  next
    case (stepUp c n v)
    have c: "c < length g0" using cv stepUp by simp
    have n: "up (g0 ! c) = Some n" using stepUp f(2)[OF c] by simp
    then have nl: "n < length g0" using gridOK_valid(1)[OF ok c] by simp
    have "paxStep g0 a (a\<lparr>timeToTransition := v, cell := Some n, state := (if n = targetSeat a then Some Seated else Some LoadingUp)\<rparr>)"
      using stepUp n by (intro paxStep.stepUp[of a c g0 n]) simp_all
    then show ?thesis using stepUp wf nl by (simp add: wfPax_def)
  next
    case (stepDown c n v)
    have c: "c < length g0" using cv stepDown by simp
    have n: "down (g0 ! c) = Some n" using stepDown f(3)[OF c] by simp
    then have nl: "n < length g0" using gridOK_valid(2)[OF ok c] by simp
    have "paxStep g0 a (a\<lparr>timeToTransition := v, cell := Some n, state := (if n = targetSeat a then Some Seated else Some LoadingDown)\<rparr>)"
      using stepDown n by (intro paxStep.stepDown[of a c g0 n]) simp_all
    then show ?thesis using stepDown wf nl by (simp add: wfPax_def)
  qed
qed

lemma sameShape_trans: "sameShape g0 g \<Longrightarrow> sameShape g g' \<Longrightarrow> sameShape g0 g'"
  by (simp add: sameShape_def)

lemma baseInv_wfPax:
  assumes "baseInv targets g0 s" and "\<forall>x\<in>set targets. x < length g0 \<and> row (g0 ! x) \<noteq> None" and "p < length (pax s)"
  shows "wfPax g0 (pax s ! p)"
proof -
  from assms(1) have m: "map targetSeat (pax s) = targets"
    and cv: "\<forall>c. cell (pax s ! p) = Some c \<longrightarrow> c < length g0"
    using assms(3) unfolding baseInv_def by blast+
  from m assms(3) have "targetSeat (pax s ! p) \<in> set targets"
    by (metis length_map nth_map nth_mem)
  then show ?thesis using cv assms(2) by (simp add: wfPax_def)
qed

lemma baseInv_update:
  assumes b: "baseInv targets g0 s" and p: "p < length (pax s)"
    and sh: "sameShape (grid (aircraft s)) (grid (aircraft s'))"
    and st: "startingCell (aircraft s') = startingCell (aircraft s)"
    and px: "pax s' = (pax s)[p := a']" and tg: "targetSeat a' = targetSeat (pax s ! p)"
    and cv: "\<forall>c. cell a' = Some c \<longrightarrow> c < length g0"
    and qa: "set (activePax s') \<subseteq> set (activePax s) \<union> {p}" and qp: "set (pendingPax s') \<subseteq> set (pendingPax s)"
  shows "baseInv targets g0 s'"
proof -
  from b have 1: "sameShape g0 (grid (aircraft s))" and 2: "startingCell (aircraft s) = 0"
    and 3: "map targetSeat (pax s) = targets"
    and 4: "\<And>q c. q < length (pax s) \<Longrightarrow> cell (pax s ! q) = Some c \<Longrightarrow> c < length g0"
    and 5: "\<And>q. q \<in> set (activePax s) \<Longrightarrow> q < length (pax s)"
    and 6: "\<And>q. q \<in> set (pendingPax s) \<Longrightarrow> q < length (pax s)"
    unfolding baseInv_def by blast+
  have a: "sameShape g0 (grid (aircraft s'))" using 1 sh by (rule sameShape_trans)
  have b': "startingCell (aircraft s') = 0" using st 2 by simp
  have "map targetSeat (pax s') = (map targetSeat (pax s))[p := targetSeat (pax s ! p)]"
    by (simp add: px map_update tg)
  also have "\<dots> = map targetSeat (pax s)" using p by (simp add: list_update_same_conv)
  finally have c: "map targetSeat (pax s') = targets" using 3 by simp
  have d: "\<forall>q<length (pax s'). \<forall>c. cell (pax s' ! q) = Some c \<longrightarrow> c < length g0"
  proof (intro allI impI)
    fix q c assume q: "q < length (pax s')" and c: "cell (pax s' ! q) = Some c"
    show "c < length g0"
    proof (cases "q = p")
      case True
      then show ?thesis using c cv p by (simp add: px)
    next
      case False
      then show ?thesis using c q 4[of q c] by (simp add: px)
    qed
  qed
  have e: "\<forall>q\<in>set (activePax s'). q < length (pax s')" using qa 5 p by (auto simp: px)
  have f: "\<forall>q\<in>set (pendingPax s'). q < length (pax s')" using qp 6 by (auto simp: px)
  show ?thesis unfolding baseInv_def by (intro conjI a b' c d e f)
qed

lemma all_nth_update:
  "(\<And>q. q < length xs \<Longrightarrow> P (xs ! q)) \<Longrightarrow> P a \<Longrightarrow> \<forall>q<length (xs[p := a]). P (xs[p := a] ! q)"
proof (intro allI impI)
  fix q assume a: "\<And>q. q < length xs \<Longrightarrow> P (xs ! q)" "P a" and q: "q < length (xs[p := a])"
  show "P (xs[p := a] ! q)"
    by (cases "q = p") (use a q in \<open>simp_all add: nth_list_update\<close>)
qed

lemma reachable_invariant:
  assumes r: "reachable lug t s0 s"
    and ok: "gridOK g0" and tg: "\<forall>x\<in>set targets. x < length g0 \<and> row (g0 ! x) \<noteq> None"
    and b0: "baseInv targets g0 s0" and p0: "\<forall>p<length (pax s0). P (pax s0 ! p)"
    and closed: "\<And>a a'. P a \<Longrightarrow> wfPax g0 a \<Longrightarrow> paxStep g0 a a' \<Longrightarrow> P a'"
    and boarded: "\<And>a. wfPax g0 a \<Longrightarrow> P (a\<lparr>cell := Some 0, state := Some Searching\<rparr>)"
  shows "baseInv targets g0 s \<and> (\<forall>p<length (pax s). P (pax s ! p))"
  using r
proof (induction rule: reachable.induct)
  case start
  show ?case using b0 p0 by simp
next
  case (admitted s s')
  then have b: "baseInv targets g0 s" and P: "\<And>q. q < length (pax s) \<Longrightarrow> P (pax s ! q)" by auto
  from b have pv: "\<forall>p\<in>set (pendingPax s). p < length (pax s)" and sc: "startingCell (aircraft s) = 0"
    unfolding baseInv_def by blast+
  from admit_effect[OF admitted.hyps(2) pv] show ?case
  proof (elim disjE conjE)
    assume "s' = s" then show ?thesis using admitted.IH by simp
  next
    let ?p = "last (pendingPax s)"
    let ?a' = "(pax s ! ?p)\<lparr>cell := Some (startingCell (aircraft s)), state := Some Searching\<rparr>"
    assume ne: "pendingPax s \<noteq> []"
      and px: "pax s' = (pax s)[?p := ?a']"
      and g: "grid (aircraft s') = (grid (aircraft s))[startingCell (aircraft s) :=
          (grid (aircraft s) ! startingCell (aircraft s))\<lparr>contents := set_add ?p (contents (grid (aircraft s) ! startingCell (aircraft s)))\<rparr>]"
      and st: "startingCell (aircraft s') = startingCell (aircraft s)"
      and qa: "activePax s' = activePax s @ [?p]" and qp: "pendingPax s' = butlast (pendingPax s)"
    have p: "?p < length (pax s)" using pv ne by simp
    have wf: "wfPax g0 (pax s ! ?p)" using baseInv_wfPax[OF b tg p] .
    have l0: "0 < length g0" using ok gridOK_nonempty by auto
    have b': "baseInv targets g0 s'"
    proof (rule baseInv_update[OF b p _ st px])
      show "sameShape (grid (aircraft s)) (grid (aircraft s'))" unfolding g by (rule sameShape_update) simp
      show "targetSeat ?a' = targetSeat (pax s ! ?p)" by simp
      show "\<forall>c. cell ?a' = Some c \<longrightarrow> c < length g0" using sc l0 by simp
      show "set (activePax s') \<subseteq> set (activePax s) \<union> {?p}" using qa by auto
      show "set (pendingPax s') \<subseteq> set (pendingPax s)" using qp by (auto dest: in_set_butlastD)
    qed
    have "P ?a'" using boarded[OF wf] sc by simp
    then have "\<forall>q<length (pax s'). P (pax s' ! q)" unfolding px using P by (intro all_nth_update)
    with b' show ?thesis by simp
  qed
next
  case (stepped s p s')
  then have b: "baseInv targets g0 s" and P: "\<And>q. q < length (pax s) \<Longrightarrow> P (pax s ! q)" by auto
  from b stepped.hyps(2) have p: "p < length (pax s)" unfolding baseInv_def by blast
  from b have sh: "sameShape g0 (grid (aircraft s))" unfolding baseInv_def by blast
  from Passenger_simulate_effect[OF stepped.hyps(3) p]
  obtain a' where fr: "frame s s'" and ps: "paxStep (grid (aircraft s)) (pax s ! p) a'" and px: "pax s' = (pax s)[p := a']"
    by blast
  have wf: "wfPax g0 (pax s ! p)" using baseInv_wfPax[OF b tg p] .
  from paxStep_transfer[OF ps sh ok wf] have ps0: "paxStep g0 (pax s ! p) a'" and wf': "wfPax g0 a'" by auto
  have b': "baseInv targets g0 s'"
  proof (rule baseInv_update[OF b p _ _ px])
    show "sameShape (grid (aircraft s)) (grid (aircraft s'))" using fr by (simp add: frame_def)
    show "startingCell (aircraft s') = startingCell (aircraft s)" using fr by (simp add: frame_def)
    show "targetSeat a' = targetSeat (pax s ! p)" using ps by (rule paxStep_targetSeat)
    show "\<forall>c. cell a' = Some c \<longrightarrow> c < length g0" using wf' by (simp add: wfPax_def)
    show "set (activePax s') \<subseteq> set (activePax s) \<union> {p}" using fr by (auto simp: frame_def)
    show "set (pendingPax s') \<subseteq> set (pendingPax s)" using fr by (auto simp: frame_def)
  qed
  have "P a'" using closed[OF P[OF p] wf ps0] .
  then have "\<forall>q<length (pax s'). P (pax s' ! q)" unfolding px using P by (intro all_nth_update)
  with b' show ?case by simp
qed

section \<open>Invariants of the passengers\<close>

lemma gridOK_up:
  assumes "gridOK g" and "c < length g"
  shows "up (g ! c) = Some n \<longleftrightarrow> 0 < c \<and> n = c - 1 \<and> xpos (g ! (c - 1)) = xpos (g ! c)"
proof -
  have "up (g ! c) = (if 0 < c \<and> xpos (g ! (c - 1)) = xpos (g ! c) then Some (c - 1) else None)"
    using assms unfolding gridOK_def by blast
  then show ?thesis by auto
qed

lemma gridOK_down:
  assumes "gridOK g" and "c < length g"
  shows "down (g ! c) = Some n \<longleftrightarrow> Suc c < length g \<and> n = Suc c \<and> xpos (g ! Suc c) = xpos (g ! c)"
proof -
  have "down (g ! c) = (if Suc c < length g \<and> xpos (g ! Suc c) = xpos (g ! c) then Some (Suc c) else None)"
    using assms unfolding gridOK_def by blast
  then show ?thesis by auto
qed

lemma gridOK_right_plain:
  assumes "gridOK g" and "c < length g" and "right (g ! c) = Some r"
  shows "row (g ! r) = None"
  using assms unfolding gridOK_def by blast

lemma gridOK_mono:
  assumes "gridOK g" and "i \<le> k" and "k < length g"
  shows "xpos (g ! i) \<le> xpos (g ! k)"
proof -
  have "\<forall>i<length g. \<forall>k<length g. i \<le> k \<longrightarrow> xpos (g ! i) \<le> xpos (g ! k)"
    using assms(1) unfolding gridOK_def by blast
  then show ?thesis using assms(2,3) by simp
qed

lemma gridOK_row_xpos:
  assumes "gridOK g" and "i < length g" and "row (g ! i) = Some r"
  shows "xpos (g ! i) = CELLSIZE * r"
  using assms unfolding gridOK_def by blast

lemma gridOK_start: "gridOK g \<Longrightarrow> 0 < length g \<and> row (g ! 0) = None"
  unfolding gridOK_def by auto

lemma colOrder_less:
  assumes "colOrder g" and "i < k" and "k < length g" and "xpos (g ! i) = xpos (g ! k)"
    and "col (g ! i) = Some a" and "col (g ! k) = Some b"
  shows "a < b"
proof -
  have "i < length g" using assms(2,3) by simp
  then show ?thesis using assms unfolding colOrder_def by blast
qed

text \<open>a seat in the row of the target, at or beyond its column on the aisle side, has the target behind it\<close>

lemma same_row_xpos:
  assumes ok: "gridOK g" and u: "u < length g" and t: "t < length g"
    and rt: "row (g ! t) \<noteq> None" and r: "row (g ! u) = row (g ! t)"
  shows "xpos (g ! u) = xpos (g ! t)"
proof -
  from rt obtain k where k: "row (g ! t) = Some k" by auto
  then show ?thesis using gridOK_row_xpos[OF ok u, of k] gridOK_row_xpos[OF ok t, of k] r by simp
qed

lemma towardsTarget_step:
  assumes ok: "gridOK g0" and co: "colOrder g0"
    and P: "towardsTarget g0 a" and wf: "wfPax g0 a" and st: "paxStep g0 a a'"
  shows "towardsTarget g0 a'"
proof -
  let ?t = "targetSeat a"
  from wf have t: "?t < length g0" and tr: "row (g0 ! ?t) \<noteq> None"
    and cv: "\<And>c. cell a = Some c \<Longrightarrow> c < length g0"
    by (auto simp: wfPax_def)
  from st show ?thesis
  proof cases
    case idle
    then show ?thesis using P by simp
  next
    case (startUp c u v)
    have c: "c < length g0" using cv startUp by simp
    from startUp P have pc: "row (g0 ! c) = None" by (simp add: towardsTarget_def)
    from startUp gridOK_up[OF ok c, of u] have u: "0 < c" "u = c - 1" "xpos (g0 ! u) = xpos (g0 ! c)" by auto
    then have ul: "u < length g0" using c by simp
    have x: "xpos (g0 ! u) = xpos (g0 ! ?t)" using same_row_xpos[OF ok ul t tr] startUp by simp
    from startUp obtain cu ct where cc: "col (g0 ! u) = Some cu" "col (g0 ! ?t) = Some ct" "ct \<le> cu"
      by (auto simp: col_ge_def split: option.splits)
    have "?t \<noteq> c" using pc tr by auto
    moreover have "\<not> c < ?t"
    proof
      assume "c < ?t"
      then have "u < ?t" using u by simp
      from colOrder_less[OF co this t x cc(1,2)] cc(3) show False by simp
    qed
    ultimately have "?t < c" by simp
    then show ?thesis using startUp x u by (simp add: towardsTarget_def)
  next
    case (startDown c d v)
    have c: "c < length g0" using cv startDown by simp
    from startDown P have pc: "row (g0 ! c) = None" by (simp add: towardsTarget_def)
    from startDown gridOK_down[OF ok c, of d] have d: "d < length g0" "d = Suc c" "xpos (g0 ! d) = xpos (g0 ! c)" by auto
    have x: "xpos (g0 ! d) = xpos (g0 ! ?t)" using same_row_xpos[OF ok d(1) t tr] startDown by simp
    from startDown obtain cd ct where cc: "col (g0 ! d) = Some cd" "col (g0 ! ?t) = Some ct" "cd \<le> ct"
      by (auto simp: col_le_def split: option.splits)
    have "?t \<noteq> c" using pc tr by auto
    moreover have "\<not> ?t < c"
    proof
      assume "?t < c"
      then have "?t < d" using d by simp
      from colOrder_less[OF co this d(1) x[symmetric] cc(2,1)] cc(3) show False by simp
    qed
    ultimately have "c < ?t" by simp
    then show ?thesis using startDown x d by (simp add: towardsTarget_def)
  next
    case (stepRight c r)
    have c: "c < length g0" using cv stepRight by simp
    from gridOK_right_plain[OF ok c] stepRight show ?thesis by (simp add: towardsTarget_def)
  next
    case (wait v)
    then show ?thesis using P by (auto simp: towardsTarget_def)
  next
    case (stepUp c n v)
    have c: "c < length g0" using cv stepUp by simp
    from stepUp gridOK_up[OF ok c, of n] have n: "0 < c" "n = c - 1" "xpos (g0 ! n) = xpos (g0 ! c)" by auto
    from stepUp P have "?t < c" "xpos (g0 ! ?t) = xpos (g0 ! c)" by (auto simp: towardsTarget_def)
    then show ?thesis using stepUp n by (auto simp: towardsTarget_def)
  next
    case (stepDown c n v)
    have c: "c < length g0" using cv stepDown by simp
    from stepDown gridOK_down[OF ok c, of n] have n: "n = Suc c" "xpos (g0 ! n) = xpos (g0 ! c)" by auto
    from stepDown P have "c < ?t" "xpos (g0 ! ?t) = xpos (g0 ! c)" by (auto simp: towardsTarget_def)
    then show ?thesis using stepDown n by (auto simp: towardsTarget_def)
  qed
qed

lemma towardsTarget_neighbour:
  assumes ok: "gridOK g0" and P: "towardsTarget g0 a" and wf: "wfPax g0 a"
  shows "state a = Some LoadingUp \<Longrightarrow> \<exists>c n. cell a = Some c \<and> c < length g0 \<and> up (g0 ! c) = Some n"
    and "state a = Some LoadingDown \<Longrightarrow> \<exists>c n. cell a = Some c \<and> c < length g0 \<and> down (g0 ! c) = Some n"
proof -
  let ?t = "targetSeat a"
  from wf have t: "?t < length g0" and cv: "\<And>c. cell a = Some c \<Longrightarrow> c < length g0"
    by (auto simp: wfPax_def)
  show "\<exists>c n. cell a = Some c \<and> c < length g0 \<and> up (g0 ! c) = Some n" if "state a = Some LoadingUp"
  proof -
    from that P obtain c where c: "cell a = Some c" "?t < c" "xpos (g0 ! ?t) = xpos (g0 ! c)"
      by (auto simp: towardsTarget_def)
    have cl: "c < length g0" using cv c by simp
    have "xpos (g0 ! ?t) \<le> xpos (g0 ! (c - 1))" using c(2) cl by (intro gridOK_mono[OF ok]) auto
    moreover have "xpos (g0 ! (c - 1)) \<le> xpos (g0 ! c)" using cl by (intro gridOK_mono[OF ok]) auto
    ultimately have "xpos (g0 ! (c - 1)) = xpos (g0 ! c)" using c(3) by simp
    then have "up (g0 ! c) = Some (c - 1)" using gridOK_up[OF ok cl, of "c - 1"] c(2) by simp
    then show ?thesis using c cl by blast
  qed
  show "\<exists>c n. cell a = Some c \<and> c < length g0 \<and> down (g0 ! c) = Some n" if "state a = Some LoadingDown"
  proof -
    from that P obtain c where c: "cell a = Some c" "c < ?t" "xpos (g0 ! ?t) = xpos (g0 ! c)"
      by (auto simp: towardsTarget_def)
    have cl: "c < length g0" using cv c by simp
    have sl: "Suc c < length g0" using c(2) t by simp
    have "xpos (g0 ! c) \<le> xpos (g0 ! Suc c)" using sl by (intro gridOK_mono[OF ok]) auto
    moreover have "xpos (g0 ! Suc c) \<le> xpos (g0 ! ?t)" using c(2) t by (intro gridOK_mono[OF ok]) auto
    ultimately have "xpos (g0 ! Suc c) = xpos (g0 ! c)" using c(3) by simp
    then have "down (g0 ! c) = Some (Suc c)" using gridOK_down[OF ok cl, of "Suc c"] sl by simp
    then show ?thesis using c cl by blast
  qed
qed

lemma singleAisle_other:
  assumes "singleAisle g" and "c < length g" and "i < length g" and "row (g ! c) = None"
    and "xpos (g ! i) = xpos (g ! c)" and "i \<noteq> c"
  shows "row (g ! i) \<noteq> None"
  using assms unfolding singleAisle_def by blast

lemma besideAisle_step:
  assumes ok: "gridOK g0" and sa: "singleAisle g0"
    and P: "besideAisle g0 a" and wf: "wfPax g0 a" and st: "paxStep g0 a a'"
  shows "besideAisle g0 a'"
proof -
  from wf have cv: "\<And>c. cell a = Some c \<Longrightarrow> c < length g0" by (auto simp: wfPax_def)
  from st show ?thesis
  proof cases
    case idle
    then show ?thesis using P by simp
  next
    case (startUp c u v)
    have c: "c < length g0" using cv startUp by simp
    from startUp P have pc: "row (g0 ! c) = None" by (simp add: besideAisle_def)
    have "\<forall>i<c. xpos (g0 ! i) = xpos (g0 ! c) \<longrightarrow> row (g0 ! i) \<noteq> None"
      using singleAisle_other[OF sa c _ pc] c by auto
    then show ?thesis using startUp by (simp add: besideAisle_def)
  next
    case (startDown c d v)
    have c: "c < length g0" using cv startDown by simp
    from startDown P have pc: "row (g0 ! c) = None" by (simp add: besideAisle_def)
    have "\<forall>i<length g0. c < i \<longrightarrow> xpos (g0 ! i) = xpos (g0 ! c) \<longrightarrow> row (g0 ! i) \<noteq> None"
      using singleAisle_other[OF sa c _ pc] by auto
    then show ?thesis using startDown by (simp add: besideAisle_def)
  next
    case (stepRight c r)
    have c: "c < length g0" using cv stepRight by simp
    from gridOK_right_plain[OF ok c] stepRight show ?thesis by (simp add: besideAisle_def)
  next
    case (wait v)
    then show ?thesis using P by (auto simp: besideAisle_def)
  next
    case (stepUp c n v)
    have c: "c < length g0" using cv stepUp by simp
    from stepUp gridOK_up[OF ok c, of n] have n: "0 < c" "n = c - 1" "xpos (g0 ! n) = xpos (g0 ! c)" by auto
    from stepUp P have "\<forall>i<c. xpos (g0 ! i) = xpos (g0 ! c) \<longrightarrow> row (g0 ! i) \<noteq> None"
      by (auto simp: besideAisle_def)
    then have "\<forall>i<n. xpos (g0 ! i) = xpos (g0 ! n) \<longrightarrow> row (g0 ! i) \<noteq> None" using n by auto
    then show ?thesis using stepUp by (auto simp: besideAisle_def)
  next
    case (stepDown c n v)
    have c: "c < length g0" using cv stepDown by simp
    from stepDown gridOK_down[OF ok c, of n] have n: "n = Suc c" "xpos (g0 ! n) = xpos (g0 ! c)" by auto
    from stepDown P have "\<forall>i<length g0. c < i \<longrightarrow> xpos (g0 ! i) = xpos (g0 ! c) \<longrightarrow> row (g0 ! i) \<noteq> None"
      by (auto simp: besideAisle_def)
    then have "\<forall>i<length g0. n < i \<longrightarrow> xpos (g0 ! i) = xpos (g0 ! n) \<longrightarrow> row (g0 ! i) \<noteq> None" using n by auto
    then show ?thesis using stepDown by (auto simp: besideAisle_def)
  qed
qed

lemma besideAisle_boarded: "gridOK g0 \<Longrightarrow> besideAisle g0 (a\<lparr>cell := Some 0, state := Some Searching\<rparr>)"
  using gridOK_start[of g0] by (simp add: besideAisle_def)

lemma towardsTarget_boarded: "gridOK g0 \<Longrightarrow> towardsTarget g0 (a\<lparr>cell := Some 0, state := Some Searching\<rparr>)"
  using gridOK_start[of g0] by (simp add: towardsTarget_def)

text \<open>a loading passenger beside a single aisle never steps into a plain cell\<close>

lemma besideAisle_into_seat:
  assumes ok: "gridOK g0" and P: "besideAisle g0 a" and c: "cell a = Some c" "c < length g0"
  shows "state a = Some LoadingUp \<Longrightarrow> up (g0 ! c) = Some i \<Longrightarrow> row (g0 ! i) \<noteq> None"
    and "state a = Some LoadingDown \<Longrightarrow> down (g0 ! c) = Some i \<Longrightarrow> row (g0 ! i) \<noteq> None"
proof -
  show "row (g0 ! i) \<noteq> None" if "state a = Some LoadingUp" "up (g0 ! c) = Some i"
  proof -
    from that gridOK_up[OF ok c(2), of i] have n: "0 < c" "i = c - 1" "xpos (g0 ! i) = xpos (g0 ! c)" by auto
    from that P c have "\<forall>k<c. xpos (g0 ! k) = xpos (g0 ! c) \<longrightarrow> row (g0 ! k) \<noteq> None" by (auto simp: besideAisle_def)
    then show ?thesis using n by auto
  qed
  show "row (g0 ! i) \<noteq> None" if "state a = Some LoadingDown" "down (g0 ! c) = Some i"
  proof -
    from that gridOK_down[OF ok c(2), of i] have n: "i < length g0" "i = Suc c" "xpos (g0 ! i) = xpos (g0 ! c)" by auto
    from that P c have "\<forall>k<length g0. c < k \<longrightarrow> xpos (g0 ! k) = xpos (g0 ! c) \<longrightarrow> row (g0 ! k) \<noteq> None" by (auto simp: besideAisle_def)
    then show ?thesis using n by auto
  qed
qed

lemma reachable_besideAisle:
  assumes r: "reachable lug t s0 s"
    and ok: "gridOK g0" and sa: "singleAisle g0"
    and tg: "\<forall>x\<in>set targets. x < length g0 \<and> row (g0 ! x) \<noteq> None"
    and b0: "baseInv targets g0 s0" and p0: "\<forall>p<length (pax s0). besideAisle g0 (pax s0 ! p)"
  shows "baseInv targets g0 s \<and> (\<forall>p<length (pax s). besideAisle g0 (pax s ! p))"
proof (rule reachable_invariant[where P = "besideAisle g0", OF r ok tg b0 p0])
  fix a a' assume "besideAisle g0 a" "wfPax g0 a" "paxStep g0 a a'"
  then show "besideAisle g0 a'" by (rule besideAisle_step[OF ok sa])
next
  fix a show "besideAisle g0 (a\<lparr>cell := Some 0, state := Some Searching\<rparr>)"
    by (rule besideAisle_boarded[OF ok])
qed

lemma reachable_towardsTarget:
  assumes r: "reachable lug t s0 s"
    and ok: "gridOK g0" and co: "colOrder g0"
    and tg: "\<forall>x\<in>set targets. x < length g0 \<and> row (g0 ! x) \<noteq> None"
    and b0: "baseInv targets g0 s0" and p0: "\<forall>p<length (pax s0). towardsTarget g0 (pax s0 ! p)"
  shows "baseInv targets g0 s \<and> (\<forall>p<length (pax s). towardsTarget g0 (pax s ! p))"
proof (rule reachable_invariant[where P = "towardsTarget g0", OF r ok tg b0 p0])
  fix a a' assume "towardsTarget g0 a" "wfPax g0 a" "paxStep g0 a a'"
  then show "towardsTarget g0 a'" by (rule towardsTarget_step[OF ok co])
next
  fix a show "towardsTarget g0 (a\<lparr>cell := Some 0, state := Some Searching\<rparr>)"
    by (rule towardsTarget_boarded[OF ok])
qed

lemma reachable_plainCellsSingle:
  assumes r: "reachable lug t s0 s"
    and ok: "gridOK g0" and sa: "singleAisle g0"
    and tg: "\<forall>x\<in>set targets. x < length g0 \<and> row (g0 ! x) \<noteq> None"
    and b0: "baseInv targets g0 s0" and p0: "\<forall>p<length (pax s0). besideAisle g0 (pax s0 ! p)"
    and c0: "plainCellsSingle g0 s0"
  shows "plainCellsSingle g0 s"
  using r
proof (induction rule: reachable.induct)
  case start
  show ?case by (rule c0)
next
  case (admitted s s')
  note inv = reachable_besideAisle[OF admitted.hyps(1) ok sa tg b0 p0]
  from inv have b: "baseInv targets g0 s" by (rule conjunct1)
  from b have pv: "\<forall>p\<in>set (pendingPax s). p < length (pax s)" and sc: "startingCell (aircraft s) = 0"
    and sh: "sameShape g0 (grid (aircraft s))"
    unfolding baseInv_def by blast+
  have len: "length (grid (aircraft s)) = length g0" using sh by (rule sameShape_length)
  from admit_effect[OF admitted.hyps(2) pv] show ?case
  proof (elim disjE conjE)
    assume "s' = s" then show ?thesis using admitted.IH by simp
  next
    let ?p = "last (pendingPax s)"
    assume e: "isEmpty (cellAt s (startingCell (aircraft s)))"
      and g: "grid (aircraft s') = (grid (aircraft s))[startingCell (aircraft s) :=
          (grid (aircraft s) ! startingCell (aircraft s))\<lparr>contents := set_add ?p (contents (grid (aircraft s) ! startingCell (aircraft s)))\<rparr>]"
    have e0: "contents (grid (aircraft s) ! 0) = []" using e sc by (simp add: isEmpty_def cellAt_def)
    show ?thesis
      unfolding plainCellsSingle_def
    proof (intro allI impI)
      fix i assume i: "i < length g0" and pl: "row (g0 ! i) = None"
      show "length (contents (grid (aircraft s') ! i)) \<le> 1"
      proof (cases "i = 0")
        case True
        then show ?thesis using i len e0 by (simp add: g sc set_add_def)
      next
        case False
        then have "contents (grid (aircraft s') ! i) = contents (grid (aircraft s) ! i)" by (simp add: g sc)
        then show ?thesis using admitted.IH i pl by (simp add: plainCellsSingle_def)
      qed
    qed
  qed
next
  case (stepped s p s')
  note inv = reachable_besideAisle[OF stepped.hyps(1) ok sa tg b0 p0]
  from inv have b: "baseInv targets g0 s" by (rule conjunct1)
  from b stepped.hyps(2) have p: "p < length (pax s)" unfolding baseInv_def by blast
  from inv p have P: "besideAisle g0 (pax s ! p)" by blast
  from b have sh: "sameShape g0 (grid (aircraft s))" unfolding baseInv_def by blast
  have len: "length (grid (aircraft s)) = length g0" using sh by (rule sameShape_length)
  note f = sameShape_fields[OF sh]
  have wf: "wfPax g0 (pax s ! p)" using baseInv_wfPax[OF b tg p] .
  from Passenger_simulate_effect[OF stepped.hyps(3) p]
  have cs: "\<And>i. i < length g0 \<Longrightarrow> contentsStep (grid (aircraft s)) (pax s ! p) p (grid (aircraft s')) i"
    using len by simp
  show ?case
    unfolding plainCellsSingle_def
  proof (intro allI impI)
    fix i assume i: "i < length g0" and pl: "row (g0 ! i) = None"
    have old: "length (contents (grid (aircraft s) ! i)) \<le> 1" using stepped.IH i pl by (simp add: plainCellsSingle_def)
    from cs[OF i] show "length (contents (grid (aircraft s') ! i)) \<le> 1"
      unfolding contentsStep_def
    proof (elim disjE exE conjE)
      assume "length (contents (grid (aircraft s') ! i)) \<le> length (contents (grid (aircraft s) ! i))"
      then show ?thesis using old by simp
    next
      fix c assume "contents (grid (aircraft s') ! i) = [p]"
      then show ?thesis by simp
    next
      fix c assume c: "cell (pax s ! p) = Some c" and st: "state (pax s ! p) = Some LoadingUp"
        and u: "up (grid (aircraft s) ! c) = Some i"
      have cl: "c < length g0" using wf c by (simp add: wfPax_def)
      from besideAisle_into_seat(1)[OF ok P c cl st] u f(2)[OF cl] pl show ?thesis by simp
    next
      fix c assume c: "cell (pax s ! p) = Some c" and st: "state (pax s ! p) = Some LoadingDown"
        and u: "down (grid (aircraft s) ! c) = Some i"
      have cl: "c < length g0" using wf c by (simp add: wfPax_def)
      from besideAisle_into_seat(2)[OF ok P c cl st] u f(3)[OF cl] pl show ?thesis by simp
    qed
  qed
qed

section \<open>Whole ticks\<close>

text \<open>
  A pass through the loop body is an admission followed by steps of active passengers, so
  every state between two ticks is reachable by those.
\<close>

lemma queues_move:
  "move p target s = Inr s' \<Longrightarrow> activePax s' = activePax s \<and> pendingPax s' = pendingPax s"
  by (auto simp: move_def split: option.splits)

lemma queues_loadingMove:
  "loadingMove p dir s = Inr s' \<Longrightarrow> activePax s' = activePax s \<and> pendingPax s' = pendingPax s"
  by (auto simp: loadingMove_def split: option.splits if_splits sum.splits dest: queues_move)

lemma queues_Passenger_simulate:
  "Passenger_simulate lug t p s = Inr s' \<Longrightarrow> activePax s' = activePax s \<and> pendingPax s' = pendingPax s"
  by (auto simp: Passenger_simulate_def startLoading_def
      split: option.splits State.splits if_splits dest: queues_move queues_loadingMove)

lemma queues_simulateEach:
  "simulateEach lug t ps s = Inr s' \<Longrightarrow> activePax s' = activePax s \<and> pendingPax s' = pendingPax s"
proof (induction ps arbitrary: s)
  case Nil
  then show ?case by simp
next
  case (Cons p ps)
  then show ?case
    by (auto split: sum.splits dest!: queues_Passenger_simulate)
qed

lemma simulateEach_reachable:
  "reachable lug t s0 s \<Longrightarrow> set ps \<subseteq> set (activePax s) \<Longrightarrow> simulateEach lug t ps s = Inr s' \<Longrightarrow>
   reachable lug t s0 s'"
proof (induction ps arbitrary: s)
  case Nil
  then show ?case by simp
next
  case (Cons p ps)
  from Cons.prems(3) obtain s1 where 1: "Passenger_simulate lug t p s = Inr s1" and 2: "simulateEach lug t ps s1 = Inr s'"
    by (auto split: sum.splits)
  have "p \<in> set (activePax s)" using Cons.prems(2) by simp
  from reachable.stepped[OF Cons.prems(1) this 1] have r1: "reachable lug t s0 s1" .
  have "activePax s1 = activePax s" using queues_Passenger_simulate[OF 1] by simp
  then have "set ps \<subseteq> set (activePax s1)" using Cons.prems(2) by simp
  from Cons.IH[OF r1 this 2] show ?case .
qed

lemma loopBody_reachable:
  assumes "reachable lug t s0 s" and "loopBody lug t s = Inr (b, s')"
  shows "reachable lug t s0 s'"
proof -
  from assms(2) obtain s1 where a: "admit s = Inr s1"
    by (auto simp: loopBody_def split: sum.splits)
  have r1: "reachable lug t s0 s1" using assms(1) a by (rule reachable.admitted)
  show ?thesis
  proof (cases "allSeated s1")
    case True
    then have "s' = s1" using assms(2) a by (simp add: loopBody_def)
    then show ?thesis using r1 by simp
  next
    case False
    then have "simulateEach lug t (activePax s1) s1 = Inr s'"
      using assms(2) a by (auto simp: loopBody_def split: sum.splits)
    from simulateEach_reachable[OF r1 _ this] show ?thesis by simp
  qed
qed

lemma tickBoundary_reachable: "tickBoundary lug t s0 s \<Longrightarrow> reachable lug t s0 s"
  by (induction rule: tickBoundary.induct) (auto intro: reachable.start loopBody_reachable)

lemma tickBoundary_trans:
  "tickBoundary lug t s1 s2 \<Longrightarrow> tickBoundary lug t s0 s1 \<Longrightarrow> tickBoundary lug t s0 s2"
  by (induction rule: tickBoundary.induct) (auto intro: tickBoundary.later)

lemma mainLoop_tickBoundary:
  "tickBoundary lug t s (snd (snd (mainLoop run lug t n s)))"
proof (induction run lug t n s rule: mainLoop.induct)
  case (1 run lug t n s)
  show ?case
  proof (cases "run n \<and> n < maxIterations")
    case False
    then show ?thesis by (subst mainLoop.simps) (auto intro: tickBoundary.first)
  next
    case True
    show ?thesis
    proof (cases "loopBody lug t s")
      case (Inl e)
      then show ?thesis using True by (subst mainLoop.simps) (auto intro: tickBoundary.first)
    next
      case (Inr bs)
      obtain b s' where bs: "bs = (b, s')" by (cases bs)
      have tb: "tickBoundary lug t s s'" using Inr bs by (auto intro: tickBoundary.later[OF tickBoundary.first])
      show ?thesis
      proof (cases b)
        case True
        then show ?thesis using \<open>run n \<and> n < maxIterations\<close> Inr bs tb by (subst mainLoop.simps) simp
      next
        case False
        then have bf: "b = False" by simp
        from 1[OF \<open>run n \<and> n < maxIterations\<close> Inr bs[symmetric] bf]
        have "tickBoundary lug t s' (snd (snd (mainLoop run lug t (n + 1) s')))" .
        from tickBoundary_trans[OF this tb] show ?thesis
          using \<open>run n \<and> n < maxIterations\<close> Inr bs False by (subst mainLoop.simps) simp
      qed
    qed
  qed
qed

text \<open>The state in which a run starts: nobody is on board, and the invariants hold.\<close>

lemma generateAircraft_fresh:
  "startingCell (generateAircraft seatLayout) = 0 \<and>
   (\<forall>i<length (grid (generateAircraft seatLayout)). contents (grid (generateAircraft seatLayout) ! i) = [])"
proof -
  let ?R = "\<lambda>(x::nat) (r::nat) (pa::nat) ac. startingCell ac = 0 \<and> (\<forall>i<length (grid ac). contents (grid ac ! i) = [])"
  have "\<exists>x r pa. ?R x r pa (generateAircraft seatLayout)"
  proof (rule generateAircraft_rule[where R = ?R and Q = "\<lambda>x r j pat pc k pa ac. ?R x r pa ac"])
    show "?R 0 1 0 (newAircraft (newCell 0 0))" by (simp add: newAircraft_def newCell_def)
  next
    fix x r j :: nat and pat :: jsstring and pc :: "nat option" and k pa :: nat and ac :: Aircraft
    assume a: "?R x r pa ac"
    have "startingCell (seatBranch x r j pc k ac) = 0"
      using a by (simp add: seatBranch_def addCell_def addSeat_def Let_def)
    moreover have "contents (grid (seatBranch x r j pc k ac) ! i) = []" if "i < length (grid (seatBranch x r j pc k ac))" for i
    proof (cases "i < length (grid ac)")
      case True
      then show ?thesis using a by (simp add: nth_old_seatBranch)
    next
      case False
      then have "i = length (grid ac)" using that by (simp add: grid_seatBranch)
      then show ?thesis by (simp add: nth_new_seatBranch newSeat_def newCell_def)
    qed
    ultimately show "?R x r pa (seatBranch x r j pc k ac)" by simp
  next
    fix x r j :: nat and pat :: jsstring and pc :: "nat option" and k pa :: nat and ac :: Aircraft
    assume a: "?R x r pa ac"
    have "startingCell (aisleBranch x j pc pa ac) = 0"
      using a by (simp add: aisleBranch_def addCell_def Let_def)
    moreover have "contents (grid (aisleBranch x j pc pa ac) ! i) = []" if "i < length (grid (aisleBranch x j pc pa ac))" for i
    proof (cases "i < length (grid ac)")
      case True
      then show ?thesis using a by (simp add: nth_old_aisleBranch Let_def)
    next
      case False
      then have "i = length (grid ac)" using that by (simp add: grid_aisleBranch)
      then show ?thesis by (simp add: nth_new_aisleBranch newCell_def)
    qed
    ultimately show "?R x r (length (grid ac)) (aisleBranch x j pc pa ac)" by simp
  qed simp_all
  then show ?thesis by simp
qed

lemma initialSim_baseInv:
  "baseInv (seats (generateAircraft seatLayout)) (grid (generateAircraft seatLayout)) (initialSim seatLayout method rnd)"
proof -
  let ?ac = "generateAircraft seatLayout"
  let ?s = "initialSim seatLayout method rnd"
  have a: "aircraft ?s = ?ac" and p: "pax ?s = map newPassenger (seats ?ac)"
    and q: "activePax ?s = []"
    and pd: "pendingPax ?s = arrange method rnd (map newPassenger (seats ?ac)) [0..<length (seats ?ac)] ?ac"
    by (simp_all add: initialSim_def Let_def)
  have 1: "sameShape (grid ?ac) (grid (aircraft ?s))" by (simp add: a)
  have 2: "startingCell (aircraft ?s) = 0" using generateAircraft_fresh[of seatLayout] by (simp add: a)
  have 3: "map targetSeat (pax ?s) = seats ?ac" by (simp add: p newPassenger_def comp_def)
  have 4: "\<forall>p<length (pax ?s). \<forall>c. cell (pax ?s ! p) = Some c \<longrightarrow> c < length (grid ?ac)"
    by (simp add: p newPassenger_def)
  have 5: "\<forall>p\<in>set (activePax ?s). p < length (pax ?s)" by (simp add: q)
  have 6: "\<forall>p\<in>set (pendingPax ?s). p < length (pax ?s)"
    using arrange_subset[of "method" "rnd" "map newPassenger (seats ?ac)" "[0..<length (seats ?ac)]" ?ac]
    by (auto simp: pd p)
  show ?thesis unfolding baseInv_def by (intro conjI 1 2 3 4 5 6)
qed

lemma initialSim_state: "p < length (pax (initialSim seatLayout method rnd)) \<Longrightarrow> state (pax (initialSim seatLayout method rnd) ! p) = None"
  by (simp add: initialSim_def Let_def newPassenger_def)

lemma initialSim_grid: "grid (aircraft (initialSim seatLayout method rnd)) = grid (generateAircraft seatLayout)"
  by (simp add: initialSim_def Let_def)

section \<open>Concrete runs\<close>

text \<open>The loop, one pass at a time.\<close>

lemma mainLoop_continue:
  "run n \<Longrightarrow> n < maxIterations \<Longrightarrow> loopBody lug t s = Inr (False, s') \<Longrightarrow> m = n + 1 \<Longrightarrow>
   mainLoop run lug t n s = mainLoop run lug t m s'"
  by (subst mainLoop.simps) simp

lemma mainLoop_break:
  "run n \<Longrightarrow> n < maxIterations \<Longrightarrow> loopBody lug t s = Inr (True, s') \<Longrightarrow>
   mainLoop run lug t n s = (Completed, n, s')"
  by (subst mainLoop.simps) simp

lemma mainLoop_throw:
  "run n \<Longrightarrow> n < maxIterations \<Longrightarrow> loopBody lug t s = Inl e \<Longrightarrow>
   mainLoop run lug t n s = (Threw e, n, s)"
  by (subst mainLoop.simps) simp

lemma mainLoop_exit:
  "\<not> (run n \<and> n < maxIterations) \<Longrightarrow>
   mainLoop run lug t n s = (if run n then Stalled else Aborted, n, s)"
  by (subst mainLoop.simps) auto

text \<open>A state that a pass through the loop body leaves as it is stays until the loop is left.\<close>

lemma mainLoop_stuck:
  assumes stay: "loopBody lug t s = Inr (False, s)"
    and flag: "\<forall>m<maxIterations. run m"
  shows "n \<le> maxIterations \<Longrightarrow>
         mainLoop run lug t n s = (if run maxIterations then Stalled else Aborted, maxIterations, s)"
proof (induction "maxIterations - n" arbitrary: n)
  case 0
  then have "n = maxIterations" by simp
  then show ?case by (simp add: mainLoop_exit)
next
  case (Suc d)
  then have n: "n < maxIterations" by simp
  then have "run n" using flag by simp
  then have "mainLoop run lug t n s = mainLoop run lug t (Suc n) s"
    using n stay by (intro mainLoop_continue) simp_all
  moreover have "d = maxIterations - Suc n" using Suc.hyps(2) by simp
  moreover have "Suc n \<le> maxIterations" using n by simp
  ultimately show ?case using Suc.hyps(1)[of "Suc n"] by simp
qed

text \<open>The letters that \<open>+\<close> reserves.\<close>

lemma layoutLoop_plus:
  "layoutLoop x r (replicate m 43 @ rest) j pc k st = layoutLoop x r rest (j + m) pc (k + m) st"
proof (induction m arbitrary: j k)
  case 0
  then show ?case by simp
next
  case (Suc m)
  obtain ac pa where st: "st = (ac, pa)" by (cases st)
  show ?case using Suc[of "Suc j" "Suc k"] by (simp add: st)
qed

text \<open>The grids of the layouts.\<close>

lemma js_literals:
  "js ''SASAS'' = [83, 65, 83, 65, 83]" "js ''SAS'' = [83, 65, 83]" "js ''SA'' = [83, 65]"
  "js ''S'' = [83]" "js ''S+AS'' = [83, 43, 65, 83]"
  by (simp_all add: js_def)

lemmas compile_defs = generateAircraft_def js_literals newAircraft_def newCell_def newSeat_def
  seatBranch_def aisleBranch_def addCell_def addSeat_def linkDown_def set_add_def fromCharCode_def
  CELLSIZE_def Let_def

lemma generate_twoAisle: "generateAircraft twoAisleLayout = twoAisleAircraft"
  by (simp add: twoAisleLayout_def twoAisleAircraft_def compile_defs)

lemma generate_wrap: "generateAircraft wrapLayout = wrapAircraft"
  by (simp add: wrapLayout_def wrapAircraft_def layoutLoop_plus compile_defs)

lemma generate_noAisle: "generateAircraft noAisleLayout = noAisleAircraft"
  by (simp add: noAisleLayout_def noAisleAircraft_def compile_defs)

lemma generate_gap: "generateAircraft gapLayout = gapAircraft"
  by (simp add: gapLayout_def gapAircraft_def compile_defs)

text \<open>With the method \<open>btf\<close> the queue is the list of the passengers in the order of their seats.\<close>

lemma arrange_btf: "arrange (js ''btf'') rnd store pending ac = pending"
  by (simp add: arrange_def arrangeBackFront_def js_def)

lemma initialSim_oneRow: "initialSim oneRowLayout (js ''btf'') rnd = oneRowTrace ! 0"
  by (simp add: initialSim_def generate_oneRow arrange_btf oneRowTrace_def situation_def
      oneRowAircraft_def newPassenger_def)

lemma initialSim_twoAisle: "initialSim twoAisleLayout (js ''btf'') rnd = twoAisleTrace ! 0"
  by (simp add: initialSim_def generate_twoAisle arrange_btf twoAisleTrace_def situation_def
      twoAisleAircraft_def newPassenger_def)

lemma initialSim_wrap: "initialSim wrapLayout (js ''btf'') rnd = wrapTrace ! 0"
  by (simp add: initialSim_def generate_wrap arrange_btf wrapTrace_def situation_def
      wrapAircraft_def newPassenger_def)

lemma initialSim_noAisle: "initialSim noAisleLayout (js ''btf'') rnd = noAisleTrace ! 0"
  by (simp add: initialSim_def generate_noAisle arrange_btf noAisleTrace_def situation_def
      noAisleAircraft_def newPassenger_def)

text \<open>The passes through the loop body, each checked against the states written down above.\<close>

lemma oneRowTrace_tick0: "loopBody noLuggage 100 (oneRowTrace ! 0) = Inr (False, oneRowTrace ! 1)"
  by (simp add: oneRowTrace_def situation_def oneRowAircraft_def loopBody_def admit_def board_def initializeAt_def allSeated_def Passenger_simulate_def loadingMove_def move_def startLoading_def seatIsUp_def seatIsDown_def col_ge_def col_le_def cellAt_def updContents_def updPassenger_def isEmpty_def set_add_def set_delete_def noLuggage_def Let_def)

lemma oneRowTrace_tick1: "loopBody noLuggage 100 (oneRowTrace ! 1) = Inr (False, oneRowTrace ! 2)"
  by (simp add: oneRowTrace_def situation_def oneRowAircraft_def loopBody_def admit_def board_def initializeAt_def allSeated_def Passenger_simulate_def loadingMove_def move_def startLoading_def seatIsUp_def seatIsDown_def col_ge_def col_le_def cellAt_def updContents_def updPassenger_def isEmpty_def set_add_def set_delete_def noLuggage_def Let_def)

lemma oneRowTrace_tick2: "loopBody noLuggage 100 (oneRowTrace ! 2) = Inr (False, oneRowTrace ! 3)"
  by (simp add: oneRowTrace_def situation_def oneRowAircraft_def loopBody_def admit_def board_def initializeAt_def allSeated_def Passenger_simulate_def loadingMove_def move_def startLoading_def seatIsUp_def seatIsDown_def col_ge_def col_le_def cellAt_def updContents_def updPassenger_def isEmpty_def set_add_def set_delete_def noLuggage_def Let_def)

lemma oneRowTrace_tick3: "loopBody noLuggage 100 (oneRowTrace ! 3) = Inr (False, oneRowTrace ! 4)"
  by (simp add: oneRowTrace_def situation_def oneRowAircraft_def loopBody_def admit_def board_def initializeAt_def allSeated_def Passenger_simulate_def loadingMove_def move_def startLoading_def seatIsUp_def seatIsDown_def col_ge_def col_le_def cellAt_def updContents_def updPassenger_def isEmpty_def set_add_def set_delete_def noLuggage_def Let_def)

lemma oneRowTrace_tick4: "loopBody noLuggage 100 (oneRowTrace ! 4) = Inr (False, oneRowTrace ! 5)"
  by (simp add: oneRowTrace_def situation_def oneRowAircraft_def loopBody_def admit_def board_def initializeAt_def allSeated_def Passenger_simulate_def loadingMove_def move_def startLoading_def seatIsUp_def seatIsDown_def col_ge_def col_le_def cellAt_def updContents_def updPassenger_def isEmpty_def set_add_def set_delete_def noLuggage_def Let_def)

lemma oneRowTrace_tick5: "loopBody noLuggage 100 (oneRowTrace ! 5) = Inr (False, oneRowTrace ! 6)"
  by (simp add: oneRowTrace_def situation_def oneRowAircraft_def loopBody_def admit_def board_def initializeAt_def allSeated_def Passenger_simulate_def loadingMove_def move_def startLoading_def seatIsUp_def seatIsDown_def col_ge_def col_le_def cellAt_def updContents_def updPassenger_def isEmpty_def set_add_def set_delete_def noLuggage_def Let_def)

lemma oneRowTrace_tick6: "loopBody noLuggage 100 (oneRowTrace ! 6) = Inr (False, oneRowTrace ! 7)"
  by (simp add: oneRowTrace_def situation_def oneRowAircraft_def loopBody_def admit_def board_def initializeAt_def allSeated_def Passenger_simulate_def loadingMove_def move_def startLoading_def seatIsUp_def seatIsDown_def col_ge_def col_le_def cellAt_def updContents_def updPassenger_def isEmpty_def set_add_def set_delete_def noLuggage_def Let_def)

lemma oneRowTrace_tick7: "loopBody noLuggage 100 (oneRowTrace ! 7) = Inr (False, oneRowTrace ! 8)"
  by (simp add: oneRowTrace_def situation_def oneRowAircraft_def loopBody_def admit_def board_def initializeAt_def allSeated_def Passenger_simulate_def loadingMove_def move_def startLoading_def seatIsUp_def seatIsDown_def col_ge_def col_le_def cellAt_def updContents_def updPassenger_def isEmpty_def set_add_def set_delete_def noLuggage_def Let_def)

lemma oneRowTrace_tick8: "loopBody noLuggage 100 (oneRowTrace ! 8) = Inr (False, oneRowTrace ! 9)"
  by (simp add: oneRowTrace_def situation_def oneRowAircraft_def loopBody_def admit_def board_def initializeAt_def allSeated_def Passenger_simulate_def loadingMove_def move_def startLoading_def seatIsUp_def seatIsDown_def col_ge_def col_le_def cellAt_def updContents_def updPassenger_def isEmpty_def set_add_def set_delete_def noLuggage_def Let_def)

lemma oneRowTrace_tick9: "loopBody noLuggage 100 (oneRowTrace ! 9) = Inr (False, oneRowTrace ! 10)"
  by (simp add: oneRowTrace_def situation_def oneRowAircraft_def loopBody_def admit_def board_def initializeAt_def allSeated_def Passenger_simulate_def loadingMove_def move_def startLoading_def seatIsUp_def seatIsDown_def col_ge_def col_le_def cellAt_def updContents_def updPassenger_def isEmpty_def set_add_def set_delete_def noLuggage_def Let_def)

lemma oneRowTrace_tick10: "loopBody noLuggage 100 (oneRowTrace ! 10) = Inr (True, oneRowTrace ! 10)"
  by (simp add: oneRowTrace_def situation_def oneRowAircraft_def loopBody_def admit_def board_def initializeAt_def allSeated_def Passenger_simulate_def loadingMove_def move_def startLoading_def seatIsUp_def seatIsDown_def col_ge_def col_le_def cellAt_def updContents_def updPassenger_def isEmpty_def set_add_def set_delete_def noLuggage_def Let_def)

lemma twoAisleTrace_tick0: "loopBody slowFirst 100 (twoAisleTrace ! 0) = Inr (False, twoAisleTrace ! 1)"
  by (simp add: twoAisleTrace_def situation_def twoAisleAircraft_def loopBody_def admit_def board_def initializeAt_def allSeated_def Passenger_simulate_def loadingMove_def move_def startLoading_def seatIsUp_def seatIsDown_def col_ge_def col_le_def cellAt_def updContents_def updPassenger_def isEmpty_def set_add_def set_delete_def slowFirst_def Let_def)

lemma twoAisleTrace_tick1: "loopBody slowFirst 100 (twoAisleTrace ! 1) = Inr (False, twoAisleTrace ! 2)"
  by (simp add: twoAisleTrace_def situation_def twoAisleAircraft_def loopBody_def admit_def board_def initializeAt_def allSeated_def Passenger_simulate_def loadingMove_def move_def startLoading_def seatIsUp_def seatIsDown_def col_ge_def col_le_def cellAt_def updContents_def updPassenger_def isEmpty_def set_add_def set_delete_def slowFirst_def Let_def)

lemma twoAisleTrace_tick2: "loopBody slowFirst 100 (twoAisleTrace ! 2) = Inr (False, twoAisleTrace ! 3)"
  by (simp add: twoAisleTrace_def situation_def twoAisleAircraft_def loopBody_def admit_def board_def initializeAt_def allSeated_def Passenger_simulate_def loadingMove_def move_def startLoading_def seatIsUp_def seatIsDown_def col_ge_def col_le_def cellAt_def updContents_def updPassenger_def isEmpty_def set_add_def set_delete_def slowFirst_def Let_def)

lemma twoAisleTrace_tick3: "loopBody slowFirst 100 (twoAisleTrace ! 3) = Inr (False, twoAisleTrace ! 4)"
  by (simp add: twoAisleTrace_def situation_def twoAisleAircraft_def loopBody_def admit_def board_def initializeAt_def allSeated_def Passenger_simulate_def loadingMove_def move_def startLoading_def seatIsUp_def seatIsDown_def col_ge_def col_le_def cellAt_def updContents_def updPassenger_def isEmpty_def set_add_def set_delete_def slowFirst_def Let_def)

lemma twoAisleTrace_tick4: "loopBody slowFirst 100 (twoAisleTrace ! 4) = Inr (False, twoAisleTrace ! 5)"
  by (simp add: twoAisleTrace_def situation_def twoAisleAircraft_def loopBody_def admit_def board_def initializeAt_def allSeated_def Passenger_simulate_def loadingMove_def move_def startLoading_def seatIsUp_def seatIsDown_def col_ge_def col_le_def cellAt_def updContents_def updPassenger_def isEmpty_def set_add_def set_delete_def slowFirst_def Let_def)

lemma twoAisleTrace_tick5: "loopBody slowFirst 100 (twoAisleTrace ! 5) = Inr (False, twoAisleTrace ! 6)"
  by (simp add: twoAisleTrace_def situation_def twoAisleAircraft_def loopBody_def admit_def board_def initializeAt_def allSeated_def Passenger_simulate_def loadingMove_def move_def startLoading_def seatIsUp_def seatIsDown_def col_ge_def col_le_def cellAt_def updContents_def updPassenger_def isEmpty_def set_add_def set_delete_def slowFirst_def Let_def)

lemma wrapTrace_tick0: "loopBody noLuggage 100 (wrapTrace ! 0) = Inr (False, wrapTrace ! 1)"
  by (simp add: wrapTrace_def situation_def wrapAircraft_def loopBody_def admit_def board_def initializeAt_def allSeated_def Passenger_simulate_def loadingMove_def move_def startLoading_def seatIsUp_def seatIsDown_def col_ge_def col_le_def cellAt_def updContents_def updPassenger_def isEmpty_def set_add_def set_delete_def noLuggage_def Let_def)

lemma wrapTrace_tick1: "loopBody noLuggage 100 (wrapTrace ! 1) = Inr (False, wrapTrace ! 2)"
  by (simp add: wrapTrace_def situation_def wrapAircraft_def loopBody_def admit_def board_def initializeAt_def allSeated_def Passenger_simulate_def loadingMove_def move_def startLoading_def seatIsUp_def seatIsDown_def col_ge_def col_le_def cellAt_def updContents_def updPassenger_def isEmpty_def set_add_def set_delete_def noLuggage_def Let_def)

lemma wrapTrace_tick2: "loopBody noLuggage 100 (wrapTrace ! 2) = Inr (False, wrapTrace ! 3)"
  by (simp add: wrapTrace_def situation_def wrapAircraft_def loopBody_def admit_def board_def initializeAt_def allSeated_def Passenger_simulate_def loadingMove_def move_def startLoading_def seatIsUp_def seatIsDown_def col_ge_def col_le_def cellAt_def updContents_def updPassenger_def isEmpty_def set_add_def set_delete_def noLuggage_def Let_def)

lemma wrapTrace_tick3: "loopBody noLuggage 100 (wrapTrace ! 3) = Inl TypeError"
  by (simp add: wrapTrace_def situation_def wrapAircraft_def loopBody_def admit_def board_def initializeAt_def allSeated_def Passenger_simulate_def loadingMove_def move_def startLoading_def seatIsUp_def seatIsDown_def col_ge_def col_le_def cellAt_def updContents_def updPassenger_def isEmpty_def set_add_def set_delete_def noLuggage_def Let_def)

lemma noAisleTrace_tick0: "loopBody noLuggage 100 (noAisleTrace ! 0) = Inr (False, noAisleTrace ! 1)"
  by (simp add: noAisleTrace_def situation_def noAisleAircraft_def loopBody_def admit_def board_def initializeAt_def allSeated_def Passenger_simulate_def loadingMove_def move_def startLoading_def seatIsUp_def seatIsDown_def col_ge_def col_le_def cellAt_def updContents_def updPassenger_def isEmpty_def set_add_def set_delete_def noLuggage_def Let_def)

lemma noAisleTrace_tick1: "loopBody noLuggage 100 (noAisleTrace ! 1) = Inr (False, noAisleTrace ! 1)"
  by (simp add: noAisleTrace_def situation_def noAisleAircraft_def loopBody_def admit_def board_def initializeAt_def allSeated_def Passenger_simulate_def loadingMove_def move_def startLoading_def seatIsUp_def seatIsDown_def col_ge_def col_le_def cellAt_def updContents_def updPassenger_def isEmpty_def set_add_def set_delete_def noLuggage_def Let_def)

text \<open>The states between the ticks of these runs.\<close>

lemma oneRowTrace_boundary1: "tickBoundary noLuggage 100 (oneRowTrace ! 0) (oneRowTrace ! 1)"
  by (rule tickBoundary.later[OF tickBoundary.first oneRowTrace_tick0])

lemma oneRowTrace_boundary2: "tickBoundary noLuggage 100 (oneRowTrace ! 0) (oneRowTrace ! 2)"
  by (rule tickBoundary.later[OF oneRowTrace_boundary1 oneRowTrace_tick1])

lemma oneRowTrace_boundary3: "tickBoundary noLuggage 100 (oneRowTrace ! 0) (oneRowTrace ! 3)"
  by (rule tickBoundary.later[OF oneRowTrace_boundary2 oneRowTrace_tick2])

lemma oneRowTrace_boundary4: "tickBoundary noLuggage 100 (oneRowTrace ! 0) (oneRowTrace ! 4)"
  by (rule tickBoundary.later[OF oneRowTrace_boundary3 oneRowTrace_tick3])

lemma oneRowTrace_boundary5: "tickBoundary noLuggage 100 (oneRowTrace ! 0) (oneRowTrace ! 5)"
  by (rule tickBoundary.later[OF oneRowTrace_boundary4 oneRowTrace_tick4])

lemma oneRowTrace_boundary6: "tickBoundary noLuggage 100 (oneRowTrace ! 0) (oneRowTrace ! 6)"
  by (rule tickBoundary.later[OF oneRowTrace_boundary5 oneRowTrace_tick5])

lemma oneRowTrace_boundary7: "tickBoundary noLuggage 100 (oneRowTrace ! 0) (oneRowTrace ! 7)"
  by (rule tickBoundary.later[OF oneRowTrace_boundary6 oneRowTrace_tick6])

lemma oneRowTrace_boundary8: "tickBoundary noLuggage 100 (oneRowTrace ! 0) (oneRowTrace ! 8)"
  by (rule tickBoundary.later[OF oneRowTrace_boundary7 oneRowTrace_tick7])

lemma oneRowTrace_boundary9: "tickBoundary noLuggage 100 (oneRowTrace ! 0) (oneRowTrace ! 9)"
  by (rule tickBoundary.later[OF oneRowTrace_boundary8 oneRowTrace_tick8])

lemma twoAisleTrace_boundary1: "tickBoundary slowFirst 100 (twoAisleTrace ! 0) (twoAisleTrace ! 1)"
  by (rule tickBoundary.later[OF tickBoundary.first twoAisleTrace_tick0])

lemma twoAisleTrace_boundary2: "tickBoundary slowFirst 100 (twoAisleTrace ! 0) (twoAisleTrace ! 2)"
  by (rule tickBoundary.later[OF twoAisleTrace_boundary1 twoAisleTrace_tick1])

lemma twoAisleTrace_boundary3: "tickBoundary slowFirst 100 (twoAisleTrace ! 0) (twoAisleTrace ! 3)"
  by (rule tickBoundary.later[OF twoAisleTrace_boundary2 twoAisleTrace_tick2])

lemma twoAisleTrace_boundary4: "tickBoundary slowFirst 100 (twoAisleTrace ! 0) (twoAisleTrace ! 4)"
  by (rule tickBoundary.later[OF twoAisleTrace_boundary3 twoAisleTrace_tick3])

lemma twoAisleTrace_boundary5: "tickBoundary slowFirst 100 (twoAisleTrace ! 0) (twoAisleTrace ! 5)"
  by (rule tickBoundary.later[OF twoAisleTrace_boundary4 twoAisleTrace_tick4])

lemma twoAisleTrace_boundary6: "tickBoundary slowFirst 100 (twoAisleTrace ! 0) (twoAisleTrace ! 6)"
  by (rule tickBoundary.later[OF twoAisleTrace_boundary5 twoAisleTrace_tick5])

lemma wrapTrace_boundary1: "tickBoundary noLuggage 100 (wrapTrace ! 0) (wrapTrace ! 1)"
  by (rule tickBoundary.later[OF tickBoundary.first wrapTrace_tick0])

lemma wrapTrace_boundary2: "tickBoundary noLuggage 100 (wrapTrace ! 0) (wrapTrace ! 2)"
  by (rule tickBoundary.later[OF wrapTrace_boundary1 wrapTrace_tick1])

lemma wrapTrace_boundary3: "tickBoundary noLuggage 100 (wrapTrace ! 0) (wrapTrace ! 3)"
  by (rule tickBoundary.later[OF wrapTrace_boundary2 wrapTrace_tick2])

text \<open>The run of the row \<open>SSASS\<close> from its first state to the \<open>break\<close>.\<close>

lemma oneRow_mainLoop:
  "mainLoop alwaysRun noLuggage 100 0 (oneRowTrace ! 0) = (Completed, 10, oneRowTrace ! 10)"
proof -
  have "mainLoop alwaysRun noLuggage 100 0 (oneRowTrace ! 0) = mainLoop alwaysRun noLuggage 100 1 (oneRowTrace ! 1)"
    by (rule mainLoop_continue[OF _ _ oneRowTrace_tick0]) (simp_all add: alwaysRun_def maxIterations_def)
  also have "\<dots> = mainLoop alwaysRun noLuggage 100 2 (oneRowTrace ! 2)"
    by (rule mainLoop_continue[OF _ _ oneRowTrace_tick1]) (simp_all add: alwaysRun_def maxIterations_def)
  also have "\<dots> = mainLoop alwaysRun noLuggage 100 3 (oneRowTrace ! 3)"
    by (rule mainLoop_continue[OF _ _ oneRowTrace_tick2]) (simp_all add: alwaysRun_def maxIterations_def)
  also have "\<dots> = mainLoop alwaysRun noLuggage 100 4 (oneRowTrace ! 4)"
    by (rule mainLoop_continue[OF _ _ oneRowTrace_tick3]) (simp_all add: alwaysRun_def maxIterations_def)
  also have "\<dots> = mainLoop alwaysRun noLuggage 100 5 (oneRowTrace ! 5)"
    by (rule mainLoop_continue[OF _ _ oneRowTrace_tick4]) (simp_all add: alwaysRun_def maxIterations_def)
  also have "\<dots> = mainLoop alwaysRun noLuggage 100 6 (oneRowTrace ! 6)"
    by (rule mainLoop_continue[OF _ _ oneRowTrace_tick5]) (simp_all add: alwaysRun_def maxIterations_def)
  also have "\<dots> = mainLoop alwaysRun noLuggage 100 7 (oneRowTrace ! 7)"
    by (rule mainLoop_continue[OF _ _ oneRowTrace_tick6]) (simp_all add: alwaysRun_def maxIterations_def)
  also have "\<dots> = mainLoop alwaysRun noLuggage 100 8 (oneRowTrace ! 8)"
    by (rule mainLoop_continue[OF _ _ oneRowTrace_tick7]) (simp_all add: alwaysRun_def maxIterations_def)
  also have "\<dots> = mainLoop alwaysRun noLuggage 100 9 (oneRowTrace ! 9)"
    by (rule mainLoop_continue[OF _ _ oneRowTrace_tick8]) (simp_all add: alwaysRun_def maxIterations_def)
  also have "\<dots> = mainLoop alwaysRun noLuggage 100 10 (oneRowTrace ! 10)"
    by (rule mainLoop_continue[OF _ _ oneRowTrace_tick9]) (simp_all add: alwaysRun_def maxIterations_def)
  also have "\<dots> = (Completed, 10, oneRowTrace ! 10)"
    by (rule mainLoop_break[OF _ _ oneRowTrace_tick10]) (simp_all add: alwaysRun_def maxIterations_def)
  finally show ?thesis .
qed

text \<open>The run of the row \<open>SA+...+S\<close> up to the exception.\<close>

lemma wrap_mainLoop:
  "mainLoop alwaysRun noLuggage 100 0 (wrapTrace ! 0) = (Threw TypeError, 3, wrapTrace ! 3)"
proof -
  have "mainLoop alwaysRun noLuggage 100 0 (wrapTrace ! 0) = mainLoop alwaysRun noLuggage 100 1 (wrapTrace ! 1)"
    by (rule mainLoop_continue[OF _ _ wrapTrace_tick0]) (simp_all add: alwaysRun_def maxIterations_def)
  also have "\<dots> = mainLoop alwaysRun noLuggage 100 2 (wrapTrace ! 2)"
    by (rule mainLoop_continue[OF _ _ wrapTrace_tick1]) (simp_all add: alwaysRun_def maxIterations_def)
  also have "\<dots> = mainLoop alwaysRun noLuggage 100 3 (wrapTrace ! 3)"
    by (rule mainLoop_continue[OF _ _ wrapTrace_tick2]) (simp_all add: alwaysRun_def maxIterations_def)
  also have "\<dots> = (Threw TypeError, 3, wrapTrace ! 3)"
    by (rule mainLoop_throw[OF _ _ wrapTrace_tick3]) (simp_all add: alwaysRun_def maxIterations_def)
  finally show ?thesis .
qed

text \<open>The run of the row \<open>S\<close>: after the first tick nothing changes any more.\<close>

lemma noAisle_mainLoop:
  assumes "\<forall>m<maxIterations. run m"
  shows "mainLoop run noLuggage 100 0 (noAisleTrace ! 0) =
         (if run maxIterations then Stalled else Aborted, maxIterations, noAisleTrace ! 1)"
proof -
  have "run 0" using assms by (simp add: maxIterations_def)
  then have "mainLoop run noLuggage 100 0 (noAisleTrace ! 0) = mainLoop run noLuggage 100 (Suc 0) (noAisleTrace ! 1)"
    by (rule mainLoop_continue[OF _ _ noAisleTrace_tick0]) (simp_all add: maxIterations_def)
  also have "\<dots> = (if run maxIterations then Stalled else Aborted, maxIterations, noAisleTrace ! 1)"
    using mainLoop_stuck[OF noAisleTrace_tick1 assms, of "Suc 0"] by (simp add: maxIterations_def)
  finally show ?thesis .
qed

section \<open>Looking up a seat\<close>

lemma seatScan_find:
  "seatScan g ss targetRow targetCol = List.find (\<lambda>seat. seatMatches (g ! seat) targetRow targetCol) ss"
  by (induction ss) simp_all

text \<open>The strings in which the pattern occurs.\<close>

lemma upper_not_digit: "isUpper c \<Longrightarrow> \<not> isDigit c"
  by (simp add: isUpper_def isDigit_def word_le_nat_alt)

lemma digitThenCapital_Nil [simp]: "\<not> digitThenCapital []"
  by (simp add: digitThenCapital_def)

lemma digitThenCapital_Cons:
  "digitThenCapital (c # cs) \<longleftrightarrow> (isDigit c \<and> cs \<noteq> [] \<and> isUpper (hd cs)) \<or> digitThenCapital cs"
proof
  assume "digitThenCapital (c # cs)"
  then obtain u d e v where s: "c # cs = u @ d # e # v" and d: "isDigit d" "isUpper e"
    by (auto simp: digitThenCapital_def)
  show "(isDigit c \<and> cs \<noteq> [] \<and> isUpper (hd cs)) \<or> digitThenCapital cs"
  proof (cases u)
    case Nil
    then show ?thesis using s d by auto
  next
    case (Cons a u')
    then have "cs = u' @ d # e # v" using s by simp
    then show ?thesis using d by (auto simp: digitThenCapital_def)
  qed
next
  assume "(isDigit c \<and> cs \<noteq> [] \<and> isUpper (hd cs)) \<or> digitThenCapital cs"
  then show "digitThenCapital (c # cs)"
  proof
    assume a: "isDigit c \<and> cs \<noteq> [] \<and> isUpper (hd cs)"
    then obtain e v where "cs = e # v" by (cases cs) auto
    then have "c # cs = [] @ c # e # v" by simp
    then show ?thesis using a \<open>cs = e # v\<close> unfolding digitThenCapital_def by (metis list.sel(1))
  next
    assume "digitThenCapital cs"
    then obtain u d e v where "cs = u @ d # e # v" "isDigit d" "isUpper e" by (auto simp: digitThenCapital_def)
    then have "c # cs = (c # u) @ d # e # v" by simp
    then show ?thesis using \<open>isDigit d\<close> \<open>isUpper e\<close> unfolding digitThenCapital_def by blast
  qed
qed

lemma digitThenCapital_split:
  "ds \<noteq> [] \<Longrightarrow> list_all isDigit ds \<Longrightarrow> ls \<noteq> [] \<Longrightarrow> list_all isUpper ls \<Longrightarrow>
   digitThenCapital (pre @ ds @ ls @ post)"
proof -
  assume a: "ds \<noteq> []" "list_all isDigit ds" "ls \<noteq> []" "list_all isUpper ls"
  have "pre @ ds @ ls @ post = (pre @ butlast ds) @ last ds # hd ls # (tl ls @ post)"
    using a(1,3) by (metis append.assoc append_Cons append_Nil append_butlast_last_id list.collapse)
  moreover have "isDigit (last ds)" using a(1,2) by (simp add: list_all_iff)
  moreover have "isUpper (hd ls)" using a(3,4) by (simp add: list_all_iff)
  ultimately show ?thesis unfolding digitThenCapital_def by blast
qed

text \<open>The match that starts at the first unit of a string.\<close>

lemma matchHere_Some:
  assumes "matchHere s = Some (ds, ls)"
  shows "s = ds @ ls @ dropWhile isUpper (dropWhile isDigit s)" "ds \<noteq> []" "list_all isDigit ds"
    "ls \<noteq> []" "list_all isUpper ls"
    "dropWhile isUpper (dropWhile isDigit s) = [] \<or> \<not> isUpper (hd (dropWhile isUpper (dropWhile isDigit s)))"
proof -
  from assms have ds: "ds = takeWhile isDigit s" and ls: "ls = takeWhile isUpper (dropWhile isDigit s)"
    and ne: "ds \<noteq> []" "ls \<noteq> []"
    by (auto simp: matchHere_def Let_def split: if_splits)
  show "s = ds @ ls @ dropWhile isUpper (dropWhile isDigit s)" by (simp add: ds ls)
  show "ds \<noteq> []" "ls \<noteq> []" by (rule ne)+
  show "list_all isDigit ds" by (auto simp: ds list_all_iff dest: set_takeWhileD)
  show "list_all isUpper ls" by (auto simp: ls list_all_iff dest: set_takeWhileD)
  show "dropWhile isUpper (dropWhile isDigit s) = [] \<or> \<not> isUpper (hd (dropWhile isUpper (dropWhile isDigit s)))"
    using hd_dropWhile[of isUpper "dropWhile isDigit s"] by blast
qed

lemma matchHere_exact:
  assumes "ds \<noteq> []" "list_all isDigit ds" "ls \<noteq> []" "list_all isUpper ls" "post = [] \<or> \<not> isUpper (hd post)"
  shows "matchHere (ds @ ls @ post) = Some (ds, ls)"
proof -
  have nd: "\<not> isDigit (hd ls)" using assms(3,4) by (simp add: list_all_iff upper_not_digit)
  have t1: "takeWhile isDigit (ds @ ls @ post) = ds"
    using assms(2,3) nd by (cases ls) (auto simp: takeWhile_append list_all_iff)
  have d1: "dropWhile isDigit (ds @ ls @ post) = ls @ post"
    using assms(2,3) nd by (cases ls) (auto simp: dropWhile_append list_all_iff)
  have t2: "takeWhile isUpper (ls @ post) = ls"
    using assms(4,5) by (cases post) (auto simp: takeWhile_append list_all_iff)
  show ?thesis using assms(1,3) by (simp add: matchHere_def Let_def t1 d1 t2)
qed

lemma matchHere_front:
  assumes "isDigit c" "cs \<noteq> []" "isUpper (hd cs)"
  shows "matchHere (c # cs) \<noteq> None"
proof -
  obtain e v where cs: "cs = e # v" using assms(2) by (cases cs) auto
  have "\<not> isDigit e" using assms(3) cs by (simp add: upper_not_digit)
  then show ?thesis using assms cs by (simp add: matchHere_def Let_def)
qed

text \<open>
  No match starts inside a prefix that holds no digit followed by a capital and does not end
  in a digit, so the search skips such a prefix.
\<close>

lemma matchHere_blocked:
  assumes ne: "p \<noteq> []" and nd: "\<not> isDigit (last p)" and no: "\<not> digitThenCapital p"
  shows "matchHere (p @ rest) = None"
proof -
  have mem: "last p \<in> set p" using ne by simp
  have t: "takeWhile isDigit (p @ rest) = takeWhile isDigit p"
    using mem nd by (auto simp: takeWhile_append)
  have d: "dropWhile isDigit (p @ rest) = dropWhile isDigit p @ rest"
    using mem nd by (auto simp: dropWhile_append)
  have dne: "dropWhile isDigit p \<noteq> []" using mem nd by (auto simp: dropWhile_eq_Nil_conv)
  show ?thesis
  proof (cases "takeWhile isDigit p = []")
    case True
    then show ?thesis by (simp add: matchHere_def Let_def t)
  next
    case False
    obtain x v where xv: "dropWhile isDigit p = x # v" using dne by (cases "dropWhile isDigit p") auto
    have "p = takeWhile isDigit p @ x # v" using xv by (metis takeWhile_dropWhile_id)
    then have p: "p = butlast (takeWhile isDigit p) @ last (takeWhile isDigit p) # x # v"
      using False by (metis append.assoc append_Cons append_Nil append_butlast_last_id)
    have dg: "isDigit (last (takeWhile isDigit p))"
      using False by (meson last_in_set set_takeWhileD)
    have "\<not> isUpper x"
    proof
      assume "isUpper x"
      with p dg have "digitThenCapital p" unfolding digitThenCapital_def by blast
      with no show False by simp
    qed
    then show ?thesis by (simp add: matchHere_def Let_def t d xv)
  qed
qed

lemma seatIdMatch_skip:
  assumes "pre = [] \<or> \<not> isDigit (last pre)" and "\<not> digitThenCapital pre"
  shows "seatIdMatch (pre @ rest) = seatIdMatch rest"
  using assms
proof (induction pre)
  case Nil
  then show ?case by simp
next
  case (Cons c pre)
  have b: "matchHere ((c # pre) @ rest) = None"
    using Cons.prems by (intro matchHere_blocked) auto
  have 1: "pre = [] \<or> \<not> isDigit (last pre)" using Cons.prems(1) by auto
  have 2: "\<not> digitThenCapital pre" using Cons.prems(2) by (simp add: digitThenCapital_Cons)
  from Cons.IH[OF 1 2] b show ?case by simp
qed

lemma seatIdMatch_exact:
  assumes "pre = [] \<or> \<not> isDigit (last pre)" and "\<not> digitThenCapital pre"
    and "ds \<noteq> []" "list_all isDigit ds" "ls \<noteq> []" "list_all isUpper ls" "post = [] \<or> \<not> isUpper (hd post)"
  shows "seatIdMatch (pre @ ds @ ls @ post) = Some (ds, ls)"
proof -
  obtain d ds' where "ds = d # ds'" using assms(3) by (cases ds) auto
  then have "seatIdMatch (ds @ ls @ post) = Some (ds, ls)"
    using matchHere_exact[OF assms(3-7)] by simp
  then show ?thesis using seatIdMatch_skip[OF assms(1,2)] by simp
qed

text \<open>The match that is found is the leftmost one, and both groups are as long as possible.\<close>

lemma seatIdMatch_Some:
  "seatIdMatch s = Some (ds, ls) \<Longrightarrow>
   \<exists>pre post. s = pre @ ds @ ls @ post \<and> (pre = [] \<or> \<not> isDigit (last pre)) \<and> \<not> digitThenCapital pre \<and>
      ds \<noteq> [] \<and> list_all isDigit ds \<and> ls \<noteq> [] \<and> list_all isUpper ls \<and> (post = [] \<or> \<not> isUpper (hd post))"
proof (induction s)
  case Nil
  then show ?case by simp
next
  case (Cons c cs)
  show ?case
  proof (cases "matchHere (c # cs)")
    case (Some m)
    then have m: "matchHere (c # cs) = Some (ds, ls)" using Cons.prems by simp
    from matchHere_Some[OF m] show ?thesis
      by (intro exI[of _ "[]"] exI[of _ "dropWhile isUpper (dropWhile isDigit (c # cs))"]) simp
  next
    case None
    then have "seatIdMatch cs = Some (ds, ls)" using Cons.prems by simp
    from Cons.IH[OF this] obtain pre post where cs: "cs = pre @ ds @ ls @ post"
      and c1: "pre = [] \<or> \<not> isDigit (last pre)" and c2: "\<not> digitThenCapital pre"
      and r: "ds \<noteq> []" "list_all isDigit ds" "ls \<noteq> []" "list_all isUpper ls" "post = [] \<or> \<not> isUpper (hd post)"
      by blast
    have nf: "\<not> (isDigit c \<and> cs \<noteq> [] \<and> isUpper (hd cs))" using matchHere_front[of c cs] None by blast
    have a: "\<not> isDigit (last (c # pre))"
    proof (cases "pre = []")
      case True
      have "\<not> isDigit c"
      proof
        assume "isDigit c"
        then have "matchHere ((c # ds) @ ls @ post) = Some (c # ds, ls)"
          using r by (intro matchHere_exact) auto
        then show False using None cs True by simp
      qed
      then show ?thesis using True by simp
    next
      case False
      then show ?thesis using c1 by simp
    qed
    have b: "\<not> digitThenCapital (c # pre)"
    proof (cases "pre = []")
      case True
      then show ?thesis by (simp add: digitThenCapital_Cons)
    next
      case False
      then have "hd cs = hd pre" using cs by simp
      then show ?thesis using nf c2 False cs by (auto simp: digitThenCapital_Cons)
    qed
    have "c # cs = (c # pre) @ ds @ ls @ post" using cs by simp
    then show ?thesis using a b r by blast
  qed
qed

lemma seatIdMatch_None: "seatIdMatch s = None \<longleftrightarrow> \<not> digitThenCapital s"
proof
  assume n: "seatIdMatch s = None"
  show "\<not> digitThenCapital s"
    using n
  proof (induction s)
    case Nil
    then show ?case by simp
  next
    case (Cons c cs)
    then have m: "matchHere (c # cs) = None" and r: "seatIdMatch cs = None" by (auto split: option.splits)
    from matchHere_front[of c cs] m have "\<not> (isDigit c \<and> cs \<noteq> [] \<and> isUpper (hd cs))" by blast
    then show ?case using Cons.IH[OF r] by (simp add: digitThenCapital_Cons)
  qed
next
  assume no: "\<not> digitThenCapital s"
  show "seatIdMatch s = None"
  proof (rule ccontr)
    assume "seatIdMatch s \<noteq> None"
    then obtain ds ls where "seatIdMatch s = Some (ds, ls)" by auto
    from seatIdMatch_Some[OF this] obtain pre post where "s = pre @ ds @ ls @ post"
      "ds \<noteq> []" "list_all isDigit ds" "ls \<noteq> []" "list_all isUpper ls" by blast
    then have "digitThenCapital s" using digitThenCapital_split by blast
    with no show False by simp
  qed
qed


text \<open>
  The conversion of the digits to a number: it is exact below \<open>2 ^ 53\<close>, and no larger
  number is converted to a number below \<open>2 ^ 53\<close>.
\<close>

lemma bitLength_bounds: "0 < n \<Longrightarrow> 2 ^ (bitLength n - 1) \<le> n \<and> n < 2 ^ bitLength n"
proof (induction n rule: bitLength.induct)
  case (1 n)
  show ?case
  proof (cases "n div 2 = 0")
    case True
    then have "n = 1" using 1(2) by linarith
    then show ?thesis by (simp add: bitLength.simps[of "Suc 0"] bitLength.simps[of 0])
  next
    case False
    then have ih: "2 ^ (bitLength (n div 2) - 1) \<le> n div 2 \<and> n div 2 < 2 ^ bitLength (n div 2)"
      using 1 by simp
    have pos: "0 < bitLength (n div 2)" using False by (simp add: bitLength.simps[of "n div 2"])
    have b: "bitLength n = Suc (bitLength (n div 2))" using 1(2) by (simp add: bitLength.simps[of n])
    have "(2::nat) ^ bitLength (n div 2) = 2 * 2 ^ (bitLength (n div 2) - 1)"
      using pos by (cases "bitLength (n div 2)") simp_all
    then have "2 ^ (bitLength n - 1) \<le> 2 * (n div 2)" using ih b by simp
    moreover have "n < 2 * 2 ^ bitLength (n div 2)" using ih by linarith
    ultimately show ?thesis using b by simp
  qed
qed

lemma nearestDouble_exact:
  assumes "r < 2 ^ 53"
  shows "nearestDouble n = Some r \<longleftrightarrow> n = r"
proof (cases "n < 2 ^ 53")
  case True
  then show ?thesis by (auto simp: nearestDouble_def)
next
  case False
  then have n: "(2::nat) ^ 53 \<le> n" by simp
  then have pos: "0 < n" by (metis gr0I not_less_eq_eq power_eq_0_iff zero_neq_numeral le_zero_eq)
  define e where "e = bitLength n - 53"
  have up: "n < 2 ^ bitLength n" and lo: "2 ^ (bitLength n - 1) \<le> n"
    using bitLength_bounds[OF pos] by simp_all
  have "53 < bitLength n"
  proof (rule ccontr)
    assume "\<not> 53 < bitLength n"
    then have "bitLength n \<le> 53" by simp
    then have "(2::nat) ^ bitLength n \<le> 2 ^ 53" by (rule power_increasing) simp
    with up n show False by linarith
  qed
  then have be: "bitLength n - 1 = 52 + e" by (simp add: e_def)
  have "(2::nat) ^ 52 * 2 ^ e \<le> n" using lo unfolding be power_add .
  then have q: "2 ^ 52 \<le> n div 2 ^ e" by (simp add: less_eq_div_iff_mult_less_eq)
  have e1: "1 \<le> e" using \<open>53 < bitLength n\<close> by (simp add: e_def)
  then have "(2::nat) ^ 1 \<le> 2 ^ e" by (intro power_increasing) simp_all
  then have e2: "(2::nat) \<le> 2 ^ e" by simp
  have big: "2 ^ 53 \<le> m * 2 ^ e" if "n div 2 ^ e \<le> m" for m
  proof -
    have "(2::nat) ^ 53 = 2 ^ 52 * 2" by simp
    also have "\<dots> \<le> m * 2 ^ e" using q that e2 by (intro mult_le_mono) simp_all
    finally show ?thesis .
  qed
  have "nearestDouble n \<noteq> Some r"
    using False assms big[of "n div 2 ^ e"] big[of "n div 2 ^ e + 1"]
    by (auto simp: nearestDouble_def Let_def e_def[symmetric] simp del: power_numeral)
  moreover have "n \<noteq> r" using n assms by simp
  ultimately show ?thesis by simp
qed

lemma decimalValue_snoc: "decimalValue (ds @ [d]) = 10 * decimalValue ds + (unat d - 48)"
  by (simp add: decimalValue_def)

lemma decimalValue_written: "decimalValue ds = writtenNumber ds"
proof (induction ds rule: rev_induct)
  case Nil
  then show ?case by (simp add: decimalValue_def writtenNumber_def)
next
  case (snoc d ds)
  have "(\<Sum>i<length ds. (unat ((ds @ [d]) ! i) - 48) * 10 ^ (length ds - i))
      = (\<Sum>i<length ds. 10 * ((unat (ds ! i) - 48) * 10 ^ (length ds - 1 - i)))"
  proof (rule sum.cong[OF refl])
    fix i assume "i \<in> {..<length ds}"
    then have i: "i < length ds" by simp
    then have "length ds - i = Suc (length ds - 1 - i)" by simp
    then show "(unat ((ds @ [d]) ! i) - 48) * 10 ^ (length ds - i)
        = 10 * ((unat (ds ! i) - 48) * 10 ^ (length ds - 1 - i))"
      using i by (simp add: nth_append)
  qed
  then have "writtenNumber (ds @ [d]) = 10 * writtenNumber ds + (unat d - 48)"
    by (simp add: writtenNumber_def sum_distrib_left)
  then show ?case using snoc by (simp add: decimalValue_snoc)
qed

lemma findSeat_match:
  "seatIdMatch seatId = Some (ds, ls) \<Longrightarrow>
   findSeat ac seatId =
     List.find (\<lambda>seat. (\<exists>r. row (grid ac ! seat) = Some r \<and> nearestDouble (writtenNumber ds) = Some r) \<and>
                        (\<exists>c. col (grid ac ! seat) = Some c \<and> ls = [c])) (seats ac)"
proof -
  assume m: "seatIdMatch seatId = Some (ds, ls)"
  have "seatMatches cell ds ls \<longleftrightarrow>
        (\<exists>r. row cell = Some r \<and> nearestDouble (writtenNumber ds) = Some r) \<and>
        (\<exists>c. col cell = Some c \<and> ls = [c])" for cell
    by (auto simp: seatMatches_def toNumber_def decimalValue_written split: option.splits)
  then show ?thesis using m by (simp add: findSeat_def seatScan_find)
qed

text \<open>
  Claim C9. \<open>findSeat\<close> has no failing path: for every string it returns a value.
  It returns \<open>null\<close> when no digit of the identifier is directly followed by a capital
  letter. Otherwise the identifier is read at the leftmost such place: it splits as
  \<open>pre @ ds @ ls @ post\<close> where \<open>ds\<close> is a non-empty run of digits, \<open>ls\<close> a non-empty run of
  capitals, \<open>pre\<close> holds no digit followed by a capital and does not end in a digit, and
  \<open>post\<close> does not start with a capital. For every such split the result is the first seat
  of the seat list whose row is the number written by \<open>ds\<close> in decimal notation, converted
  as JavaScript converts a string to a number, and whose column is the string \<open>ls\<close>; it is
  \<open>null\<close> when there is no such seat. The conversion is the identity on the numbers below
  \<open>2 ^ 53\<close>, and it maps no other number below \<open>2 ^ 53\<close>.
\<close>

theorem findSeat_first_match:
  "(\<not> digitThenCapital seatId \<longrightarrow> findSeat ac seatId = None) \<and>
   (digitThenCapital seatId \<longrightarrow>
      (\<exists>pre ds ls post. seatId = pre @ ds @ ls @ post \<and>
         (pre = [] \<or> \<not> isDigit (last pre)) \<and> \<not> digitThenCapital pre \<and>
         ds \<noteq> [] \<and> list_all isDigit ds \<and> ls \<noteq> [] \<and> list_all isUpper ls \<and>
         (post = [] \<or> \<not> isUpper (hd post)))) \<and>
   (\<forall>pre ds ls post. seatId = pre @ ds @ ls @ post \<and>
         (pre = [] \<or> \<not> isDigit (last pre)) \<and> \<not> digitThenCapital pre \<and>
         ds \<noteq> [] \<and> list_all isDigit ds \<and> ls \<noteq> [] \<and> list_all isUpper ls \<and>
         (post = [] \<or> \<not> isUpper (hd post)) \<longrightarrow>
      findSeat ac seatId =
        List.find (\<lambda>seat. (\<exists>r. row (grid ac ! seat) = Some r \<and> nearestDouble (writtenNumber ds) = Some r) \<and>
                           (\<exists>c. col (grid ac ! seat) = Some c \<and> ls = [c])) (seats ac)) \<and>
   (\<forall>n r. r < 2 ^ 53 \<longrightarrow> (nearestDouble n = Some r \<longleftrightarrow> n = r))"
proof (intro conjI impI allI)
  assume "\<not> digitThenCapital seatId"
  then have "seatIdMatch seatId = None" by (simp add: seatIdMatch_None)
  then show "findSeat ac seatId = None" by (simp add: findSeat_def)
next
  assume "digitThenCapital seatId"
  then have "seatIdMatch seatId \<noteq> None" by (simp add: seatIdMatch_None)
  then obtain ds ls where "seatIdMatch seatId = Some (ds, ls)" by auto
  from seatIdMatch_Some[OF this]
  show "\<exists>pre ds ls post. seatId = pre @ ds @ ls @ post \<and>
         (pre = [] \<or> \<not> isDigit (last pre)) \<and> \<not> digitThenCapital pre \<and>
         ds \<noteq> [] \<and> list_all isDigit ds \<and> ls \<noteq> [] \<and> list_all isUpper ls \<and>
         (post = [] \<or> \<not> isUpper (hd post))" by blast
next
  fix pre ds ls post
  assume a: "seatId = pre @ ds @ ls @ post \<and>
         (pre = [] \<or> \<not> isDigit (last pre)) \<and> \<not> digitThenCapital pre \<and>
         ds \<noteq> [] \<and> list_all isDigit ds \<and> ls \<noteq> [] \<and> list_all isUpper ls \<and>
         (post = [] \<or> \<not> isUpper (hd post))"
  then have "seatIdMatch seatId = Some (ds, ls)" using seatIdMatch_exact by blast
  then show "findSeat ac seatId =
        List.find (\<lambda>seat. (\<exists>r. row (grid ac ! seat) = Some r \<and> nearestDouble (writtenNumber ds) = Some r) \<and>
                           (\<exists>c. col (grid ac ! seat) = Some c \<and> ls = [c])) (seats ac)"
    by (rule findSeat_match)
next
  fix n r :: nat
  assume "r < 2 ^ 53"
  then show "nearestDouble n = Some r \<longleftrightarrow> n = r" by (rule nearestDouble_exact)
qed

text \<open>
  The identifiers \<open>1B\<close>, \<open>B1\<close> and \<open>x12AB7C\<close> on the aircraft of one row \<open>SSASS\<close>: the first
  names the second seat, the second has no digit before a capital, the third names row 12
  and column \<open>AB\<close>, which no seat has.
\<close>

lemma js_1B: "js ''1B'' = [49, 66]" "js ''B1'' = [66, 49]" "js ''x12AB7C'' = [120, 49, 50, 65, 66, 55, 67]"
  by (simp_all add: js_def fromCharCode_def)

theorem findSeat_first_match_witness:
  "(\<exists>pre ds ls post. js ''1B'' = pre @ ds @ ls @ post \<and> ds \<noteq> [] \<and> ls \<noteq> []) \<and>
   findSeat (generateAircraft oneRowLayout) (js ''1B'') = Some 2 \<and>
   findSeat (generateAircraft oneRowLayout) (js ''B1'') = None \<and>
   findSeat (generateAircraft oneRowLayout) (js ''x12AB7C'') = None \<and>
   nearestDouble 9007199254740992 \<noteq> Some 9007199254740991"
proof -
  have d1: "digitThenCapital (js ''1B'')"
    unfolding digitThenCapital_def js_1B
    by (intro exI[of _ "[]"] exI[of _ 49] exI[of _ 66]) (simp add: isDigit_def isUpper_def)
  have d2: "\<not> digitThenCapital (js ''B1'')"
    by (simp add: js_1B digitThenCapital_Cons isDigit_def isUpper_def)
  have e: "\<exists>pre ds ls post. js ''1B'' = pre @ ds @ ls @ post \<and> ds \<noteq> [] \<and> ls \<noteq> []"
    using findSeat_first_match[of "js ''1B''" "generateAircraft oneRowLayout"] d1 by blast
  have w1: "writtenNumber [49] = 1"
    by (simp add: writtenNumber_def)
  have "findSeat (generateAircraft oneRowLayout) (js ''1B'') =
        List.find (\<lambda>seat. (\<exists>r. row (grid (generateAircraft oneRowLayout) ! seat) = Some r \<and> nearestDouble (writtenNumber [49]) = Some r) \<and>
                           (\<exists>c. col (grid (generateAircraft oneRowLayout) ! seat) = Some c \<and> [66] = [c])) (seats (generateAircraft oneRowLayout))"
    using findSeat_first_match[of "js ''1B''" "generateAircraft oneRowLayout"]
    unfolding js_1B
    by (elim conjE allE[of _ "[]"] allE[of _ "[49]"] allE[of _ "[66]"])
       (simp add: isDigit_def isUpper_def)
  then have a: "findSeat (generateAircraft oneRowLayout) (js ''1B'') = Some 2"
    by (simp add: w1 nearestDouble_def generate_oneRow oneRowAircraft_def)
  have b: "findSeat (generateAircraft oneRowLayout) (js ''B1'') = None"
    using findSeat_first_match[of "js ''B1''" "generateAircraft oneRowLayout"] d2 by blast
  have w2: "writtenNumber [49, 50] = 12"
    by (simp add: writtenNumber_def lessThan_Suc)
  have "findSeat (generateAircraft oneRowLayout) (js ''x12AB7C'') =
        List.find (\<lambda>seat. (\<exists>r. row (grid (generateAircraft oneRowLayout) ! seat) = Some r \<and> nearestDouble (writtenNumber [49, 50]) = Some r) \<and>
                           (\<exists>c. col (grid (generateAircraft oneRowLayout) ! seat) = Some c \<and> [65, 66] = [c])) (seats (generateAircraft oneRowLayout))"
    using findSeat_first_match[of "js ''x12AB7C''" "generateAircraft oneRowLayout"]
    unfolding js_1B
    by (elim conjE allE[of _ "[120]"] allE[of _ "[49, 50]"] allE[of _ "[65, 66]"] allE[of _ "[55, 67]"])
       (simp add: isDigit_def isUpper_def digitThenCapital_Cons)
  then have c: "findSeat (generateAircraft oneRowLayout) (js ''x12AB7C'') = None"
    by (simp add: generate_oneRow oneRowAircraft_def)
  have d: "nearestDouble 9007199254740992 \<noteq> Some 9007199254740991"
    using findSeat_first_match[of "[]" "generateAircraft oneRowLayout"] by simp
  from e a b c d show ?thesis by (intro conjI)
qed

section \<open>The run of one row\<close>

text \<open>
  Claim C3, as amended. For the grid compiled from the one row group \<open>SSASS\<close> with repeat 1,
  the method \<open>btf\<close>, ticks of 100 ms, a luggage duration that is always 0 and a cancellation
  flag that stays set, the run ends by the \<open>break\<close> with all four passengers seated, and it
  does so when the iteration counter is 10: ten passes through the loop body moved
  passengers, the eleventh found everybody seated. The grid has 4 seats.
\<close>

theorem oneRow_completion:
  "simulate oneRowLayout (js ''btf'') rnd alwaysRun (Some 100) (Some noLuggage) =
     (Completed, 10, oneRowTrace ! 10) \<and>
   map state (pax (oneRowTrace ! 10)) = replicate 4 (Some Seated) \<and>
   map cell (pax (oneRowTrace ! 10)) = map Some (seats (generateAircraft oneRowLayout)) \<and>
   length (seats (generateAircraft oneRowLayout)) = 4"
proof -
  have "simulate oneRowLayout (js ''btf'') rnd alwaysRun (Some 100) (Some noLuggage) =
        (Completed, 10, oneRowTrace ! 10)"
    by (simp add: simulate_def initialSim_oneRow oneRow_mainLoop)
  moreover have "map state (pax (oneRowTrace ! 10)) = replicate 4 (Some Seated)"
    by (simp add: oneRowTrace_def situation_def numeral_eq_Suc)
  moreover have "map cell (pax (oneRowTrace ! 10)) = map Some (seats (generateAircraft oneRowLayout))"
    by (simp add: oneRowTrace_def situation_def generate_oneRow oneRowAircraft_def)
  moreover have "length (seats (generateAircraft oneRowLayout)) = 4"
    by (simp add: generate_oneRow oneRowAircraft_def)
  ultimately show ?thesis by (intro conjI)
qed

text \<open>
  The claim as it is written fails: the number of ticks of that run is not the number of
  seats.
\<close>

theorem oneRow_completion_counterexample:
  "fst (snd (simulate oneRowLayout (js ''btf'') firstChoice alwaysRun (Some 100) (Some noLuggage)))
     \<noteq> length (seats (generateAircraft oneRowLayout))"
  by (simp add: simulate_def initialSim_oneRow oneRow_mainLoop generate_oneRow oneRowAircraft_def)

section \<open>Occupancy of the cells\<close>

text \<open>
  Claim C2, as amended. In a run on a grid compiled from a layout in which no row has more
  than one aisle symbol, whenever the loop is between two ticks every plain cell (the
  starting cell and the aisle cells, the cells that have no row) holds at most one passenger.
\<close>

theorem aisle_cells_single_occupant:
  assumes single: "\<forall>sp\<in>set seatLayout. length (filter (\<lambda>s. s = 65) (layout sp)) \<le> 1"
    and tb: "tickBoundary lug t (initialSim seatLayout method rnd) s"
    and c: "c < length (grid (aircraft s))" and pl: "row (cellAt s c) = None"
  shows "length (contents (cellAt s c)) \<le> 1"
proof -
  let ?g0 = "grid (generateAircraft seatLayout)" and ?tg = "seats (generateAircraft seatLayout)"
  let ?s0 = "initialSim seatLayout method rnd"
  have r: "reachable lug t ?s0 s" using tb by (rule tickBoundary_reachable)
  have ok: "gridOK ?g0" by (rule gridOK_generateAircraft)
  have sa: "singleAisle ?g0" using single by (rule singleAisle_generateAircraft)
  have tg: "\<forall>x\<in>set ?tg. x < length ?g0 \<and> row (?g0 ! x) \<noteq> None" by (rule seatsInv_generateAircraft)
  have p0: "\<forall>p<length (pax ?s0). besideAisle ?g0 (pax ?s0 ! p)"
    by (simp add: besideAisle_def initialSim_state)
  have c0: "plainCellsSingle ?g0 ?s0"
    unfolding plainCellsSingle_def initialSim_grid
  proof (intro allI impI)
    fix i assume "i < length ?g0"
    then have "contents (?g0 ! i) = []" using generateAircraft_fresh[of seatLayout] by blast
    then show "length (contents (?g0 ! i)) \<le> 1" by simp
  qed
  have pcs: "plainCellsSingle ?g0 s"
    using reachable_plainCellsSingle[OF r ok sa tg initialSim_baseInv p0 c0] .
  have b: "baseInv ?tg ?g0 s"
    using reachable_besideAisle[OF r ok sa tg initialSim_baseInv p0] by (rule conjunct1)
  from b have sh: "sameShape ?g0 (grid (aircraft s))" unfolding baseInv_def by blast
  have cl: "c < length ?g0" using c sameShape_length[OF sh] by simp
  have "row (?g0 ! c) = None" using pl sameShape_fields(6)[OF sh cl] by (simp add: cellAt_def)
  with pcs cl have "length (contents (grid (aircraft s) ! c)) \<le> 1"
    unfolding plainCellsSingle_def by blast
  then show ?thesis by (simp add: cellAt_def)
qed

text \<open>The first state after a tick of the run of the row \<open>SSASS\<close>: passenger 3 stands in the aisle.\<close>

theorem aisle_cells_single_occupant_witness:
  "tickBoundary noLuggage 100 (initialSim oneRowLayout (js ''btf'') firstChoice) (oneRowTrace ! 1) \<and>
   row (cellAt (oneRowTrace ! 1) 3) = None \<and>
   contents (cellAt (oneRowTrace ! 1) 3) = [3] \<and>
   length (contents (cellAt (oneRowTrace ! 1) 3)) \<le> 1"
proof -
  have tb: "tickBoundary noLuggage 100 (initialSim oneRowLayout (js ''btf'') firstChoice) (oneRowTrace ! 1)"
    using oneRowTrace_boundary1 by (simp add: initialSim_oneRow)
  have single: "\<forall>sp\<in>set oneRowLayout. length (filter (\<lambda>s. s = 65) (layout sp)) \<le> 1"
    by (simp add: oneRowLayout_def js_SSASS)
  have c: "3 < length (grid (aircraft (oneRowTrace ! 1)))"
    by (simp add: oneRowTrace_def situation_def oneRowAircraft_def)
  have r: "row (cellAt (oneRowTrace ! 1) 3) = None"
    by (simp add: oneRowTrace_def situation_def oneRowAircraft_def cellAt_def)
  have o: "contents (cellAt (oneRowTrace ! 1) 3) = [3]"
    by (simp add: oneRowTrace_def situation_def oneRowAircraft_def cellAt_def)
  from aisle_cells_single_occupant[OF single tb c r] tb r o show ?thesis by (intro conjI)
qed

text \<open>
  The claim as it is written fails. In a row with two aisle symbols the aisle cell that lies
  between two seats is crossed by passengers on the way to their seats, who do not wait for
  it to be free: after six ticks of the run below that aisle cell holds two passengers. And
  a seat is crossed in the same way: after nine ticks of the run of the row \<open>SSASS\<close> the seat
  \<open>1B\<close> holds its own passenger and the one on the way to \<open>1A\<close>.
\<close>

theorem aisle_cells_single_occupant_counterexample:
  "tickBoundary slowFirst 100 (initialSim twoAisleLayout (js ''btf'') firstChoice) (twoAisleTrace ! 6) \<and>
   row (cellAt (twoAisleTrace ! 6) 4) = None \<and>
   contents (cellAt (twoAisleTrace ! 6) 4) = [3, 2] \<and>
   tickBoundary noLuggage 100 (initialSim oneRowLayout (js ''btf'') firstChoice) (oneRowTrace ! 9) \<and>
   contents (cellAt (oneRowTrace ! 9) 2) = [1, 0]"
proof -
  have 1: "tickBoundary slowFirst 100 (initialSim twoAisleLayout (js ''btf'') firstChoice) (twoAisleTrace ! 6)"
    using twoAisleTrace_boundary6 by (simp add: initialSim_twoAisle)
  have 2: "row (cellAt (twoAisleTrace ! 6) 4) = None"
    by (simp add: twoAisleTrace_def situation_def twoAisleAircraft_def cellAt_def)
  have 3: "contents (cellAt (twoAisleTrace ! 6) 4) = [3, 2]"
    by (simp add: twoAisleTrace_def situation_def twoAisleAircraft_def cellAt_def)
  have 4: "tickBoundary noLuggage 100 (initialSim oneRowLayout (js ''btf'') firstChoice) (oneRowTrace ! 9)"
    using oneRowTrace_boundary9 by (simp add: initialSim_oneRow)
  have 5: "contents (cellAt (oneRowTrace ! 9) 2) = [1, 0]"
    by (simp add: oneRowTrace_def situation_def oneRowAircraft_def cellAt_def)
  from 1 2 3 4 5 show ?thesis by (intro conjI)
qed

section \<open>The neighbour of a loading passenger\<close>

text \<open>
  Claim C10, as amended. On a grid compiled from a layout in which every row has at most
  65471 symbols \<open>S\<close> and \<open>+\<close> (so that no column name passes the last code unit), in every
  state that a run reaches, between the ticks or inside one, a passenger in the state
  \<open>LoadingUp\<close> stands in a cell that has an upper neighbour and a passenger in the state
  \<open>LoadingDown\<close> in a cell that has a lower neighbour, whatever the countdown is.
\<close>

theorem loading_neighbour_present:
  assumes narrow: "\<forall>sp\<in>set seatLayout. length (filter (\<lambda>s. s = 83 \<or> s = 43) (layout sp)) \<le> 65471"
    and r: "reachable lug t (initialSim seatLayout method rnd) s"
    and p: "p < length (pax s)"
  shows "(state (pax s ! p) = Some LoadingUp \<longrightarrow> (\<exists>c n. cell (pax s ! p) = Some c \<and> up (cellAt s c) = Some n)) \<and>
         (state (pax s ! p) = Some LoadingDown \<longrightarrow> (\<exists>c n. cell (pax s ! p) = Some c \<and> down (cellAt s c) = Some n))"
proof -
  let ?g0 = "grid (generateAircraft seatLayout)" and ?tg = "seats (generateAircraft seatLayout)"
  let ?s0 = "initialSim seatLayout method rnd"
  have ok: "gridOK ?g0" by (rule gridOK_generateAircraft)
  have co: "colOrder ?g0" using narrow by (rule colOrder_generateAircraft)
  have tg: "\<forall>x\<in>set ?tg. x < length ?g0 \<and> row (?g0 ! x) \<noteq> None" by (rule seatsInv_generateAircraft)
  have p0: "\<forall>p<length (pax ?s0). towardsTarget ?g0 (pax ?s0 ! p)"
    by (simp add: towardsTarget_def initialSim_state)
  note inv = reachable_towardsTarget[OF r ok co tg initialSim_baseInv p0]
  from inv have b: "baseInv ?tg ?g0 s" by (rule conjunct1)
  from inv p have P: "towardsTarget ?g0 (pax s ! p)" by blast
  have wf: "wfPax ?g0 (pax s ! p)" using baseInv_wfPax[OF b tg p] .
  from b have sh: "sameShape ?g0 (grid (aircraft s))" unfolding baseInv_def by blast
  note f = sameShape_fields[OF sh]
  note nb = towardsTarget_neighbour[OF ok P wf]
  show ?thesis
  proof (intro conjI impI)
    assume "state (pax s ! p) = Some LoadingUp"
    from nb(1)[OF this] obtain c n where "cell (pax s ! p) = Some c" "c < length ?g0" "up (?g0 ! c) = Some n" by blast
    then show "\<exists>c n. cell (pax s ! p) = Some c \<and> up (cellAt s c) = Some n"
      using f(2)[of c] by (auto simp: cellAt_def)
  next
    assume "state (pax s ! p) = Some LoadingDown"
    from nb(2)[OF this] obtain c n where "cell (pax s ! p) = Some c" "c < length ?g0" "down (?g0 ! c) = Some n" by blast
    then show "\<exists>c n. cell (pax s ! p) = Some c \<and> down (cellAt s c) = Some n"
      using f(3)[of c] by (auto simp: cellAt_def)
  qed
qed

text \<open>
  After six ticks of the run of the row \<open>SSASS\<close> passenger 1, bound for \<open>1B\<close>, is loading up in
  the aisle cell, whose upper neighbour is that seat.
\<close>

theorem loading_neighbour_present_witness:
  "reachable noLuggage 100 (initialSim oneRowLayout (js ''btf'') firstChoice) (oneRowTrace ! 6) \<and>
   state (pax (oneRowTrace ! 6) ! 1) = Some LoadingUp \<and>
   cell (pax (oneRowTrace ! 6) ! 1) = Some 3 \<and>
   (\<exists>c n. cell (pax (oneRowTrace ! 6) ! 1) = Some c \<and> up (cellAt (oneRowTrace ! 6) c) = Some n)"
proof -
  have r: "reachable noLuggage 100 (initialSim oneRowLayout (js ''btf'') firstChoice) (oneRowTrace ! 6)"
    using tickBoundary_reachable[OF oneRowTrace_boundary6] by (simp add: initialSim_oneRow)
  have narrow: "\<forall>sp\<in>set oneRowLayout. length (filter (\<lambda>s. s = 83 \<or> s = 43) (layout sp)) \<le> 65471"
    by (simp add: oneRowLayout_def js_SSASS)
  have p: "1 < length (pax (oneRowTrace ! 6))"
    by (simp add: oneRowTrace_def situation_def)
  have st: "state (pax (oneRowTrace ! 6) ! 1) = Some LoadingUp"
    by (simp add: oneRowTrace_def situation_def)
  have c: "cell (pax (oneRowTrace ! 6) ! 1) = Some 3"
    by (simp add: oneRowTrace_def situation_def)
  from loading_neighbour_present[OF narrow r p] st
  have "\<exists>c n. cell (pax (oneRowTrace ! 6) ! 1) = Some c \<and> up (cellAt (oneRowTrace ! 6) c) = Some n"
    by blast
  with r st c show ?thesis by (intro conjI)
qed

text \<open>
  The claim as it is written fails when a column name wraps around. In the row below the
  last seat is named by the unit 0, which is below \<open>A\<close>: its passenger takes the seat \<open>1A\<close>
  above the aisle for a seat on the way, starts loading up, and after three ticks stands in
  \<open>1A\<close> with the countdown expired and no upper neighbour. The next tick throws.
\<close>

theorem loading_neighbour_present_counterexample:
  "tickBoundary noLuggage 100 (initialSim wrapLayout (js ''btf'') firstChoice) (wrapTrace ! 3) \<and>
   targetSeat (pax (wrapTrace ! 3) ! 1) \<in> set (seats (generateAircraft wrapLayout)) \<and>
   state (pax (wrapTrace ! 3) ! 1) = Some LoadingUp \<and>
   timeToTransition (pax (wrapTrace ! 3) ! 1) - 100 \<le> 0 \<and>
   cell (pax (wrapTrace ! 3) ! 1) = Some 1 \<and>
   up (cellAt (wrapTrace ! 3) 1) = None \<and>
   loopBody noLuggage 100 (wrapTrace ! 3) = Inl TypeError \<and>
   simulate wrapLayout (js ''btf'') firstChoice alwaysRun (Some 100) (Some noLuggage) =
     (Threw TypeError, 3, wrapTrace ! 3)"
proof -
  have 1: "tickBoundary noLuggage 100 (initialSim wrapLayout (js ''btf'') firstChoice) (wrapTrace ! 3)"
    using wrapTrace_boundary3 by (simp add: initialSim_wrap)
  have 2: "targetSeat (pax (wrapTrace ! 3) ! 1) \<in> set (seats (generateAircraft wrapLayout))"
    by (simp add: wrapTrace_def situation_def generate_wrap wrapAircraft_def)
  have 3: "state (pax (wrapTrace ! 3) ! 1) = Some LoadingUp"
    by (simp add: wrapTrace_def situation_def)
  have 4: "timeToTransition (pax (wrapTrace ! 3) ! 1) - 100 \<le> 0"
    by (simp add: wrapTrace_def situation_def)
  have 5: "cell (pax (wrapTrace ! 3) ! 1) = Some 1"
    by (simp add: wrapTrace_def situation_def)
  have 6: "up (cellAt (wrapTrace ! 3) 1) = None"
    by (simp add: wrapTrace_def situation_def wrapAircraft_def cellAt_def)
  have 7: "simulate wrapLayout (js ''btf'') firstChoice alwaysRun (Some 100) (Some noLuggage) =
     (Threw TypeError, 3, wrapTrace ! 3)"
    by (simp add: simulate_def initialSim_wrap wrap_mainLoop)
  from 1 2 3 4 5 6 wrapTrace_tick3 7 show ?thesis by (intro conjI)
qed

section \<open>Admission\<close>

text \<open>What the admission step does to the two queues.\<close>

lemma admit_cases:
  assumes "admit s = r"
  shows "r = Inr s \<or>
         (isEmpty (cellAt s (startingCell (aircraft s))) \<and> pendingPax s \<noteq> [] \<and>
          (\<exists>s1. r = Inr s1 \<and> activePax s1 = activePax s @ [last (pendingPax s)] \<and>
                pendingPax s1 = butlast (pendingPax s)))"
proof (cases "length (pendingPax s) > 0 \<and> isEmpty (cellAt s (startingCell (aircraft s)))")
  case False
  then show ?thesis using assms by (auto simp: admit_def)
next
  case True
  let ?s1 = "s\<lparr>pendingPax := butlast (pendingPax s)\<rparr>"
  have e: "isEmpty (cellAt ?s1 (startingCell (aircraft ?s1)))" using True by (simp add: cellAt_def)
  have "r = Inr ((initializeAt (last (pendingPax s)) (startingCell (aircraft s)) Searching ?s1)
                   \<lparr>activePax := activePax (initializeAt (last (pendingPax s)) (startingCell (aircraft s)) Searching ?s1)
                                   @ [last (pendingPax s)]\<rparr>)"
    using assms True e by (simp add: admit_def board_def Let_def)
  then show ?thesis using True by (simp add: initializeAt_def)
qed

lemma loopBody_queues:
  assumes "loopBody lug t s = Inr (b, s')"
  shows "(activePax s' = activePax s \<and> pendingPax s' = pendingPax s) \<or>
         (isEmpty (cellAt s (startingCell (aircraft s))) \<and> pendingPax s \<noteq> [] \<and>
          activePax s' = activePax s @ [last (pendingPax s)] \<and> pendingPax s' = butlast (pendingPax s))"
proof -
  from assms obtain s1 where a: "admit s = Inr s1"
    by (auto simp: loopBody_def split: sum.splits)
  have q: "activePax s' = activePax s1 \<and> pendingPax s' = pendingPax s1"
  proof (cases "allSeated s1")
    case True
    then show ?thesis using assms a by (simp add: loopBody_def)
  next
    case False
    then have "simulateEach lug t (activePax s1) s1 = Inr s'"
      using assms a by (auto simp: loopBody_def split: sum.splits)
    then show ?thesis by (rule queues_simulateEach)
  qed
  from admit_cases[OF a] q show ?thesis by auto
qed

lemma Passenger_simulate_error: "Passenger_simulate lug t p s = Inl e \<Longrightarrow> e = TypeError"
  by (auto simp: Passenger_simulate_def loadingMove_def move_def
      split: option.splits State.splits if_splits sum.splits)

lemma simulateEach_error: "simulateEach lug t ps s = Inl e \<Longrightarrow> e = TypeError"
proof (induction ps arbitrary: s)
  case Nil
  then show ?case by simp
next
  case (Cons p ps)
  show ?case
  proof (cases "Passenger_simulate lug t p s")
    case (Inl e')
    then show ?thesis using Cons.prems Passenger_simulate_error[of lug t p s e'] by simp
  next
    case (Inr s1)
    then show ?thesis using Cons.prems Cons.IH[of s1] by simp
  qed
qed

lemma loopBody_error: "loopBody lug t s \<noteq> Inl StartingCellFull"
proof
  assume l: "loopBody lug t s = Inl StartingCellFull"
  show False
  proof (cases "admit s")
    case (Inl e)
    with admit_cases[of s "Inl e"] show False by auto
  next
    case (Inr s1)
    with l have "simulateEach lug t (activePax s1) s1 = Inl StartingCellFull"
      by (auto simp: loopBody_def split: if_splits sum.splits)
    from simulateEach_error[OF this] show False by simp
  qed
qed

lemma mainLoop_error: "fst (mainLoop run lug t n s) \<noteq> Threw StartingCellFull"
proof (induction run lug t n s rule: mainLoop.induct)
  case (1 run lug t n s)
  show ?case
  proof (cases "run n \<and> n < maxIterations")
    case False
    then show ?thesis by (simp add: mainLoop_exit)
  next
    case True
    show ?thesis
    proof (cases "loopBody lug t s")
      case (Inl e)
      then have "e \<noteq> StartingCellFull" using loopBody_error[of lug t s] by auto
      then show ?thesis using True Inl by (simp add: mainLoop_throw)
    next
      case (Inr bs)
      obtain b s' where bs: "bs = (b, s')" by (cases bs)
      show ?thesis
      proof (cases b)
        case True
        then show ?thesis using \<open>run n \<and> n < maxIterations\<close> Inr bs by (simp add: mainLoop_break)
      next
        case False
        then have bf: "b = False" by simp
        have "mainLoop run lug t n s = mainLoop run lug t (n + 1) s'"
          using \<open>run n \<and> n < maxIterations\<close> Inr bs bf by (intro mainLoop_continue) simp_all
        then show ?thesis using 1[OF \<open>run n \<and> n < maxIterations\<close> Inr bs[symmetric] bf] by simp
      qed
    qed
  qed
qed

text \<open>
  Claim C5. A pass through the loop body from any state either leaves the two queues as
  they are, or it moves exactly one passenger, the last of the pending queue, to the end of
  the active queue, and this only if the starting cell was empty when the pass began. A pass
  never ends in the exception of \<open>Aircraft.board\<close>, and neither does the loop or a whole run.
\<close>

theorem admission_throttled:
  "(loopBody lug t s = Inr (b, s') \<longrightarrow>
      (activePax s' = activePax s \<and> pendingPax s' = pendingPax s) \<or>
      (isEmpty (cellAt s (startingCell (aircraft s))) \<and> pendingPax s \<noteq> [] \<and>
       activePax s' = activePax s @ [last (pendingPax s)] \<and> pendingPax s' = butlast (pendingPax s))) \<and>
   loopBody lug t s \<noteq> Inl StartingCellFull \<and>
   fst (mainLoop run lug t n s) \<noteq> Threw StartingCellFull \<and>
   fst (simulate seatLayout method rnd run tickLengthms luggageDistribution) \<noteq> Threw StartingCellFull"
proof (intro conjI impI)
  assume "loopBody lug t s = Inr (b, s')"
  then show "(activePax s' = activePax s \<and> pendingPax s' = pendingPax s) \<or>
      (isEmpty (cellAt s (startingCell (aircraft s))) \<and> pendingPax s \<noteq> [] \<and>
       activePax s' = activePax s @ [last (pendingPax s)] \<and> pendingPax s' = butlast (pendingPax s))"
    by (rule loopBody_queues)
next
  show "loopBody lug t s \<noteq> Inl StartingCellFull" by (rule loopBody_error)
next
  show "fst (mainLoop run lug t n s) \<noteq> Threw StartingCellFull" by (rule mainLoop_error)
next
  show "fst (simulate seatLayout method rnd run tickLengthms luggageDistribution) \<noteq> Threw StartingCellFull"
    unfolding simulate_def by (rule mainLoop_error)
qed

text \<open>
  In the run of the row \<open>SSASS\<close>: the second tick starts with the starting cell empty and
  admits passenger 2; the third starts with passenger 2 in the starting cell and admits
  nobody.
\<close>

theorem admission_throttled_witness:
  "loopBody noLuggage 100 (oneRowTrace ! 1) = Inr (False, oneRowTrace ! 2) \<and>
   isEmpty (cellAt (oneRowTrace ! 1) (startingCell (aircraft (oneRowTrace ! 1)))) \<and>
   activePax (oneRowTrace ! 1) = [3] \<and> activePax (oneRowTrace ! 2) = [3, 2] \<and>
   pendingPax (oneRowTrace ! 1) = [0, 1, 2] \<and> pendingPax (oneRowTrace ! 2) = [0, 1] \<and>
   loopBody noLuggage 100 (oneRowTrace ! 2) = Inr (False, oneRowTrace ! 3) \<and>
   contents (cellAt (oneRowTrace ! 2) (startingCell (aircraft (oneRowTrace ! 2)))) = [2] \<and>
   activePax (oneRowTrace ! 3) = [3, 2] \<and> pendingPax (oneRowTrace ! 3) = [0, 1]"
proof -
  have a1: "activePax (oneRowTrace ! 1) = [3]" and p1: "pendingPax (oneRowTrace ! 1) = [0, 1, 2]"
    and a2: "activePax (oneRowTrace ! 2) = [3, 2]" and p2: "pendingPax (oneRowTrace ! 2) = [0, 1]"
    and c2: "contents (cellAt (oneRowTrace ! 2) (startingCell (aircraft (oneRowTrace ! 2)))) = [2]"
    and p3: "pendingPax (oneRowTrace ! 3) = [0, 1]"
    by (simp_all add: oneRowTrace_def situation_def oneRowAircraft_def cellAt_def)
  have "activePax (oneRowTrace ! 2) \<noteq> activePax (oneRowTrace ! 1)" unfolding a1 a2 by simp
  then have e1: "isEmpty (cellAt (oneRowTrace ! 1) (startingCell (aircraft (oneRowTrace ! 1))))"
    using admission_throttled[of noLuggage 100 "oneRowTrace ! 1" False "oneRowTrace ! 2"]
      oneRowTrace_tick1 by blast
  have "\<not> isEmpty (cellAt (oneRowTrace ! 2) (startingCell (aircraft (oneRowTrace ! 2))))"
    unfolding c2 isEmpty_def by simp
  then have "activePax (oneRowTrace ! 3) = activePax (oneRowTrace ! 2)"
    using admission_throttled[of noLuggage 100 "oneRowTrace ! 2" False "oneRowTrace ! 3"]
      oneRowTrace_tick2 by blast
  then have a3: "activePax (oneRowTrace ! 3) = [3, 2]" unfolding a2 .
  from oneRowTrace_tick1 e1 a1 a2 p1 p2 oneRowTrace_tick2 c2 a3 p3 show ?thesis by (intro conjI)
qed

section \<open>The iteration ceiling\<close>

text \<open>How the loop can be left, from any value of the counter up to the ceiling.\<close>

lemma mainLoop_outcome:
  "n \<le> maxIterations \<Longrightarrow> mainLoop run lug t n s = (out, m, s') \<Longrightarrow>
   n \<le> m \<and> m \<le> maxIterations \<and>
   (m = maxIterations \<longrightarrow> out = (if run maxIterations then Stalled else Aborted)) \<and>
   (out = Stalled \<longrightarrow> m = maxIterations \<and> run maxIterations) \<and>
   (out = Completed \<longrightarrow> m < maxIterations \<and> allSeated s')"
proof (induction run lug t n s rule: mainLoop.induct)
  case (1 run lug t n s)
  note le = "1.prems"(1) and res = "1.prems"(2)
  show ?case
  proof (cases "run n \<and> n < maxIterations")
    case False
    then have ex: "mainLoop run lug t n s = (if run n then Stalled else Aborted, n, s)"
      by (rule mainLoop_exit)
    have "(if run n then Stalled else Aborted, n, s) = (out, m, s')" using res unfolding ex .
    then have e: "(if run n then Stalled else Aborted) = out" "n = m" unfolding prod.inject by blast+
    have o: "out = (if run n then Stalled else Aborted)" using e(1) by (rule sym)
    have m: "m = n" using e(2) by (rule sym)
    have "run n \<longrightarrow> n = maxIterations" using False le by auto
    then show ?thesis using o m le by auto
  next
    case True
    then have rn: "run n" and lt: "n < maxIterations" by simp_all
    show ?thesis
    proof (cases "loopBody lug t s")
      case (Inl e)
      then have "mainLoop run lug t n s = (Threw e, n, s)" using rn lt by (intro mainLoop_throw)
      with res have "out = Threw e" and "m = n" by simp_all
      then show ?thesis using lt by simp
    next
      case (Inr bs)
      obtain b s1 where bs: "bs = (b, s1)" by (cases bs)
      show ?thesis
      proof (cases b)
        case True
        then have l: "loopBody lug t s = Inr (True, s1)" using Inr bs by simp
        then have a: "allSeated s1"
          by (auto simp: loopBody_def split: sum.splits if_splits)
        have "mainLoop run lug t n s = (Completed, n, s1)" using rn lt l by (rule mainLoop_break)
        with res have "out = Completed" and "m = n" and "s' = s1" by simp_all
        then show ?thesis using lt a by simp
      next
        case False
        then have bf: "b = False" by simp
        have "mainLoop run lug t n s = mainLoop run lug t (n + 1) s1"
          using rn lt Inr bs bf by (intro mainLoop_continue) simp_all
        with res have r1: "mainLoop run lug t (n + 1) s1 = (out, m, s')" by simp
        have le1: "n + 1 \<le> maxIterations" using lt by simp
        from 1(1)[OF True Inr bs[symmetric] bf le1 r1]
        have "n + 1 \<le> m" and rest: "m \<le> maxIterations \<and>
           (m = maxIterations \<longrightarrow> out = (if run maxIterations then Stalled else Aborted)) \<and>
           (out = Stalled \<longrightarrow> m = maxIterations \<and> run maxIterations) \<and>
           (out = Completed \<longrightarrow> m < maxIterations \<and> allSeated s')"
          by blast+
        then have "n \<le> m" by simp
        then show ?thesis using rest by (rule conjI)
      qed
    qed
  qed
qed

text \<open>
  Claim C8, as amended. The loop makes at most 10000 passes. A run whose counter reaches
  10000 has stopped there and is not completed: it is left without any report (\<open>Stalled\<close>) if
  the cancellation flag is still set, and it is reported as aborted if the flag has been
  cleared in the meantime. A run ends \<open>Stalled\<close> only at the ceiling, and a completed run has
  ended below the ceiling with every admitted passenger seated.
\<close>

theorem iteration_ceiling:
  "maxIterations = 10000 \<and>
   fst (snd (simulate seatLayout method rnd run tickLengthms luggageDistribution)) \<le> maxIterations \<and>
   (fst (snd (simulate seatLayout method rnd run tickLengthms luggageDistribution)) = maxIterations \<longrightarrow>
      fst (simulate seatLayout method rnd run tickLengthms luggageDistribution) =
        (if run maxIterations then Stalled else Aborted)) \<and>
   (fst (simulate seatLayout method rnd run tickLengthms luggageDistribution) = Stalled \<longrightarrow>
      fst (snd (simulate seatLayout method rnd run tickLengthms luggageDistribution)) = maxIterations \<and>
      run maxIterations) \<and>
   (fst (simulate seatLayout method rnd run tickLengthms luggageDistribution) = Completed \<longrightarrow>
      fst (snd (simulate seatLayout method rnd run tickLengthms luggageDistribution)) < maxIterations \<and>
      allSeated (snd (snd (simulate seatLayout method rnd run tickLengthms luggageDistribution))))"
proof -
  obtain out m s' where r: "simulate seatLayout method rnd run tickLengthms luggageDistribution = (out, m, s')"
    by (cases "simulate seatLayout method rnd run tickLengthms luggageDistribution")
  have "0 \<le> maxIterations" by simp
  from mainLoop_outcome[OF this r[unfolded simulate_def]]
  have "m \<le> maxIterations \<and>
     (m = maxIterations \<longrightarrow> out = (if run maxIterations then Stalled else Aborted)) \<and>
     (out = Stalled \<longrightarrow> m = maxIterations \<and> run maxIterations) \<and>
     (out = Completed \<longrightarrow> m < maxIterations \<and> allSeated s')"
    by (rule conjunct2)
  moreover have "maxIterations = 10000" by (rule maxIterations_def)
  ultimately show ?thesis unfolding r fst_conv snd_conv by (rule conjI[rotated])
qed

text \<open>
  The row \<open>S\<close> has no aisle, so its passenger never leaves the starting cell. With the flag
  left set the run reaches the ceiling and ends without a report.
\<close>

theorem iteration_ceiling_witness:
  "fst (snd (simulate noAisleLayout (js ''btf'') firstChoice alwaysRun (Some 100) (Some noLuggage))) = 10000 \<and>
   fst (simulate noAisleLayout (js ''btf'') firstChoice alwaysRun (Some 100) (Some noLuggage)) = Stalled"
proof -
  have "\<forall>m<maxIterations. alwaysRun m" by (simp add: alwaysRun_def)
  from noAisle_mainLoop[OF this]
  have n: "fst (snd (simulate noAisleLayout (js ''btf'') firstChoice alwaysRun (Some 100) (Some noLuggage))) = maxIterations"
    by (simp add: simulate_def initialSim_noAisle)
  with iteration_ceiling[of noAisleLayout "js ''btf''" firstChoice alwaysRun "Some 100" "Some noLuggage"]
  show ?thesis by (simp add: alwaysRun_def)
qed

text \<open>
  The claim as it is written fails: the same run with the flag cleared during the last tick
  reaches the ceiling with its passenger not seated, and it is reported as aborted.
\<close>

theorem iteration_ceiling_counterexample:
  "simulate noAisleLayout (js ''btf'') firstChoice stopAtCeiling (Some 100) (Some noLuggage) =
     (Aborted, 10000, noAisleTrace ! 1) \<and>
   \<not> allSeated (noAisleTrace ! 1)"
proof -
  have a: "\<forall>m<maxIterations. stopAtCeiling m" by (simp add: stopAtCeiling_def maxIterations_def)
  have f: "\<not> stopAtCeiling maxIterations" by (simp add: stopAtCeiling_def maxIterations_def)
  from noAisle_mainLoop[OF a] f
  have "mainLoop stopAtCeiling noLuggage 100 0 (noAisleTrace ! 0) = (Aborted, maxIterations, noAisleTrace ! 1)"
    by simp
  then have "simulate noAisleLayout (js ''btf'') firstChoice stopAtCeiling (Some 100) (Some noLuggage) =
     (Aborted, 10000, noAisleTrace ! 1)"
    by (simp add: simulate_def initialSim_noAisle maxIterations_def)
  moreover have "\<not> allSeated (noAisleTrace ! 1)"
    by (simp add: noAisleTrace_def situation_def allSeated_def)
  ultimately show ?thesis by simp
qed

end
